theory Spec2Isabelle
  imports Main "HOL-Library.AList"
begin

section \<open>Anonymous chat server: sessions, messages and votes\<close>

text \<open>
  A shallow embedding of \<^verbatim>\<open>anonymous-chat/backend/server.js\<close>. The server keeps two
  module-level variables, \<^verbatim>\<open>messages\<close> (an array) and \<^verbatim>\<open>users\<close> (a Map keyed by
  socket id), and registers four socket.io handlers: \<^verbatim>\<open>connection\<close>,
  \<^verbatim>\<open>send_message\<close>, \<^verbatim>\<open>vote_message\<close> and \<^verbatim>\<open>disconnect\<close>. Each handler runs to
  completion on the event loop, so a handler is a function from the state to the new state
  and the list of events it emits.

  What the environment supplies is an argument of the handler: the socket id, the payload
  \<^verbatim>\<open>data\<close> sent by the client, the result of \<^verbatim>\<open>uuidv4()\<close>, of \<^verbatim>\<open>new Date()\<close> and of
  \<^verbatim>\<open>generateAnonymousName()\<close>.
\<close>

subsection \<open>Values received from clients\<close>

text \<open>
  A payload is whatever JSON value the client sent, or \<^verbatim>\<open>undefined\<close> when it sent
  none. An object is the list of its own properties, each key once.
\<close>

datatype jsval =
    JUndefined
  | JNull
  | JBool bool
  | JNum int
  | JStr string
  | JArr "jsval list"
  | JObj "(string \<times> jsval) list"

datatype error = TypeError

text \<open>
  \<^verbatim>\<open>data.text\<close> and \<^verbatim>\<open>const { messageId, voteType } = data\<close>: reading a property of
  \<^verbatim>\<open>undefined\<close> or \<^verbatim>\<open>null\<close> throws a TypeError; a property that an object does not
  have, and any of the three names read from a primitive or an array, is
  \<^verbatim>\<open>undefined\<close>.
\<close>

fun get_prop :: "jsval \<Rightarrow> string \<Rightarrow> error + jsval" where
  "get_prop JUndefined k = Inl TypeError"
| "get_prop JNull k = Inl TypeError"
| "get_prop (JObj fs) k = Inr (case map_of fs k of None \<Rightarrow> JUndefined | Some v \<Rightarrow> v)"
| "get_prop v k = Inr JUndefined"

text \<open>\<^verbatim>\<open>v === 'literal'\<close> with a string on the right: true for that string only.\<close>

definition strict_eq_str :: "jsval \<Rightarrow> string \<Rightarrow> bool" where
  "strict_eq_str v s = (v = JStr s)"

subsection \<open>The state\<close>

text \<open>
  The value stored in \<^verbatim>\<open>users\<close>: \<^verbatim>\<open>{ username, joinedAt }\<close>.
\<close>

record user =
  username :: string
  joinedAt :: nat

text \<open>
  The message literal of the \<^verbatim>\<open>send_message\<close> handler. The fields \<^verbatim>\<open>id\<close>,
  \<^verbatim>\<open>text\<close> and \<^verbatim>\<open>username\<close> carry the suffix \<open>_msg\<close> here. \<^verbatim>\<open>votes\<close> is a
  JavaScript number that only ever changes by adding or subtracting 1, modelled as an
  integer. \<^verbatim>\<open>voters\<close> is a JavaScript Set of socket ids, which keeps insertion order and
  holds each element once: a list, with \<open>set_has\<close> and \<open>set_add\<close> below.
\<close>

record message =
  id_msg :: string
  text_msg :: jsval
  username_msg :: string
  timestamp :: nat
  votes :: int
  voters :: "string list"

definition set_has :: "string list \<Rightarrow> string \<Rightarrow> bool" where
  "set_has xs x = (x \<in> set xs)"

definition set_add :: "string list \<Rightarrow> string \<Rightarrow> string list" where
  "set_add xs x = (if x \<in> set xs then xs else xs @ [x])"

text \<open>
  \<^verbatim>\<open>users\<close> is a JavaScript Map: insertion-ordered, one entry per key. It is an
  association list; \<^verbatim>\<open>users.set\<close> is \<open>AList.update\<close>, \<^verbatim>\<open>users.delete\<close> is
  \<open>AList.delete\<close>, \<^verbatim>\<open>users.get\<close> is \<open>map_of\<close> and \<^verbatim>\<open>users.size\<close> is the length.
\<close>

record state =
  messages :: "message list"
  users :: "(string \<times> user) list"

definition init_state :: state where
  "init_state = \<lparr>messages = [], users = []\<rparr>"

subsection \<open>Emitted events\<close>

datatype payload =
    Initial_messages "message list"
  | Username_assigned string
  | User_count nat
  | New_message message
  | Message_updated string int "string list"

text \<open>\<^verbatim>\<open>socket.emit\<close> reaches one socket, \<^verbatim>\<open>io.emit\<close> every connected socket.\<close>

datatype emit =
    Socket_emit string payload
  | Io_emit payload

subsection \<open>The handlers\<close>

text \<open>\<^verbatim>\<open>messages.slice(-n)\<close>: the last \<open>n\<close> elements, all of them when there are fewer.\<close>

definition slice_last :: "nat \<Rightarrow> 'a list \<Rightarrow> 'a list" where
  "slice_last n xs = drop (length xs - n) xs"

text \<open>
  \<^verbatim>\<open>messages.find(p)\<close> is \<open>List.find\<close>: the first element that satisfies \<open>p\<close>. The
  handler then mutates that object in place; \<open>assign_first p m' ms\<close> is the array once the
  first element that satisfies \<open>p\<close> has become \<open>m'\<close>.
\<close>

fun assign_first :: "('a \<Rightarrow> bool) \<Rightarrow> 'a \<Rightarrow> 'a list \<Rightarrow> 'a list" where
  "assign_first p m' [] = []"
| "assign_first p m' (m # ms) = (if p m then m' # ms else m # assign_first p m' ms)"

text \<open>The body of \<^verbatim>\<open>io.on('connection', ...)\<close> up to the registration of the handlers.\<close>

definition connection :: "string \<Rightarrow> string \<Rightarrow> nat \<Rightarrow> state \<Rightarrow> state \<times> emit list" where
  "connection socket_id name now s =
     (let users' = AList.update socket_id \<lparr>username = name, joinedAt = now\<rparr> (users s)
      in (s\<lparr>users := users'\<rparr>,
          [Socket_emit socket_id (Initial_messages (messages s)),
           Socket_emit socket_id (Username_assigned name),
           Io_emit (User_count (length users'))]))"

definition send_message ::
  "string \<Rightarrow> jsval \<Rightarrow> string \<Rightarrow> nat \<Rightarrow> state \<Rightarrow> error + state \<times> emit list" where
  "send_message socket_id data uuid now s =
     (case map_of (users s) socket_id of
        None \<Rightarrow> Inr (s, [])
      | Some u \<Rightarrow>
          (case get_prop data ''text'' of
             Inl e \<Rightarrow> Inl e
           | Inr txt \<Rightarrow>
               (let message = \<lparr>id_msg = uuid, text_msg = txt, username_msg = username u,
                                timestamp = now, votes = 0, voters = []\<rparr>;
                    pushed = messages s @ [message];
                    kept = (if length pushed > 100 then slice_last 100 pushed else pushed)
                in Inr (s\<lparr>messages := kept\<rparr>, [Io_emit (New_message message)]))))"

definition vote_message :: "string \<Rightarrow> jsval \<Rightarrow> state \<Rightarrow> error + state \<times> emit list" where
  "vote_message socket_id data s =
     (case get_prop data ''messageId'' of
        Inl e \<Rightarrow> Inl e
      | Inr messageId \<Rightarrow>
     (case get_prop data ''voteType'' of
        Inl e \<Rightarrow> Inl e
      | Inr voteType \<Rightarrow>
     (case find (\<lambda>m. strict_eq_str messageId (id_msg m)) (messages s) of
        None \<Rightarrow> Inr (s, [])
      | Some message \<Rightarrow>
          (let userId = socket_id;
               hasVoted = set_has (voters message) userId;
               message' =
                 (if strict_eq_str voteType ''up'' \<and> \<not> hasVoted then
                    message\<lparr>votes := votes message + 1,
                            voters := set_add (voters message) userId\<rparr>
                  else if strict_eq_str voteType ''down'' \<and> \<not> hasVoted then
                    message\<lparr>votes := votes message - 1,
                            voters := set_add (voters message) userId\<rparr>
                  else message)
           in Inr (s\<lparr>messages :=
                        assign_first (\<lambda>m. strict_eq_str messageId (id_msg m)) message'
                          (messages s)\<rparr>,
                   [Io_emit (Message_updated (id_msg message') (votes message')
                               (voters message'))])))))"

definition disconnect :: "string \<Rightarrow> state \<Rightarrow> state \<times> emit list" where
  "disconnect socket_id s =
     (let users' = AList.delete socket_id (users s)
      in (s\<lparr>users := users'\<rparr>, [Io_emit (User_count (length users'))]))"

subsection \<open>Runs of the server\<close>

text \<open>
  One inbound event with what the environment supplies for it. A handler that throws
  ends the run: nothing in the server catches the exception.
\<close>

datatype event =
    Connection string string nat
  | Send_message string jsval string nat
  | Vote_message string jsval
  | Disconnect string

fun handle :: "event \<Rightarrow> state \<Rightarrow> error + state \<times> emit list" where
  "handle (Connection socket_id name now) s = Inr (connection socket_id name now s)"
| "handle (Send_message socket_id data uuid now) s = send_message socket_id data uuid now s"
| "handle (Vote_message socket_id data) s = vote_message socket_id data s"
| "handle (Disconnect socket_id) s = Inr (disconnect socket_id s)"

fun exec :: "state \<Rightarrow> event list \<Rightarrow> error + state \<times> emit list" where
  "exec s [] = Inr (s, [])"
| "exec s (e # es) =
     (case handle e s of
        Inl err \<Rightarrow> Inl err
      | Inr (s', out) \<Rightarrow>
          (case exec s' es of
             Inl err \<Rightarrow> Inl err
           | Inr (s'', out') \<Rightarrow> Inr (s'', out @ out')))"

subsection \<open>What a run is measured against\<close>

text \<open>
  The identifiers the environment hands out during a run: the results of \<^verbatim>\<open>uuidv4()\<close>
  and the socket ids of the connections. uuid version 4 draws 122 random bits and
  socket.io gives every connection an id of its own; that neither repeats is a
  hypothesis of the theorems that need it.
\<close>

fun uuids :: "event list \<Rightarrow> string list" where
  "uuids [] = []"
| "uuids (Send_message socket_id data uuid now # es) = uuid # uuids es"
| "uuids (e # es) = uuids es"

fun socket_ids :: "event list \<Rightarrow> string list" where
  "socket_ids [] = []"
| "socket_ids (Connection socket_id name now # es) = socket_id # socket_ids es"
| "socket_ids (e # es) = socket_ids es"

text \<open>
  The sessions of a run that are registered and not yet deregistered, read off the
  events alone: a connection counts when no later disconnect names its socket id.
\<close>

fun open_sessions :: "event list \<Rightarrow> string list" where
  "open_sessions [] = []"
| "open_sessions (Connection socket_id name now # es) =
     (if Disconnect socket_id \<in> set es then open_sessions es
      else socket_id # open_sessions es)"
| "open_sessions (e # es) = open_sessions es"

text \<open>
  An accepted vote: the vote names a message that is in the store, its direction is
  \<^verbatim>\<open>'up'\<close> or \<^verbatim>\<open>'down'\<close>, and the voter is not among the voters of that message. It is
  recorded as the message id, the voter and whether it is an up-vote.
\<close>

type_synonym vote_record = "string \<times> string \<times> bool"

definition accepted_vote :: "state \<Rightarrow> string \<Rightarrow> jsval \<Rightarrow> vote_record option" where
  "accepted_vote s voter data =
     (case (get_prop data ''messageId'', get_prop data ''voteType'') of
        (Inr messageId, Inr voteType) \<Rightarrow>
          (case find (\<lambda>m. strict_eq_str messageId (id_msg m)) (messages s) of
             None \<Rightarrow> None
           | Some m \<Rightarrow>
               if voter \<in> set (voters m) then None
               else if voteType = JStr ''up'' then Some (id_msg m, voter, True)
               else if voteType = JStr ''down'' then Some (id_msg m, voter, False)
               else None)
      | _ \<Rightarrow> None)"

fun ledger_step :: "state \<Rightarrow> event \<Rightarrow> vote_record list" where
  "ledger_step s (Vote_message voter data) =
     (case accepted_vote s voter data of None \<Rightarrow> [] | Some r \<Rightarrow> [r])"
| "ledger_step s e = []"

text \<open>The accepted votes of a run that starts in \<open>s\<close>, in the order they were cast.\<close>

fun accepted_votes :: "state \<Rightarrow> event list \<Rightarrow> vote_record list" where
  "accepted_votes s [] = []"
| "accepted_votes s (e # es) =
     (case handle e s of
        Inl err \<Rightarrow> []
      | Inr (s', out) \<Rightarrow> ledger_step s e @ accepted_votes s' es)"

definition up_votes :: "string \<Rightarrow> vote_record list \<Rightarrow> nat" where
  "up_votes x l = length (filter (\<lambda>(mid, voter, up). mid = x \<and> up) l)"

definition down_votes :: "string \<Rightarrow> vote_record list \<Rightarrow> nat" where
  "down_votes x l = length (filter (\<lambda>(mid, voter, up). mid = x \<and> \<not> up) l)"

subsection \<open>A small run\<close>

text \<open>
  Two clients connect, the first sends \<^verbatim>\<open>hello\<close>, the second votes it up:
  \<open>voted_state\<close> is the state after that.
\<close>

definition vote_data :: "string \<Rightarrow> string \<Rightarrow> jsval" where
  "vote_data mid vt = JObj [(''messageId'', JStr mid), (''voteType'', JStr vt)]"

definition small_run :: "event list" where
  "small_run =
     [Connection ''A'' ''SilentUser1'' 0,
      Connection ''B'' ''GhostGuest2'' 1,
      Send_message ''A'' (JObj [(''text'', JStr ''hello'')]) ''m1'' 2,
      Vote_message ''B'' (vote_data ''m1'' ''up'')]"

definition hello_msg :: message where
  "hello_msg = \<lparr>id_msg = ''m1'', text_msg = JStr ''hello'', username_msg = ''SilentUser1'',
                 timestamp = 2, votes = 1, voters = [''B'']\<rparr>"

definition voted_state :: state where
  "voted_state =
     \<lparr>messages = [hello_msg],
      users = [(''A'', \<lparr>username = ''SilentUser1'', joinedAt = 0\<rparr>),
               (''B'', \<lparr>username = ''GhostGuest2'', joinedAt = 1\<rparr>)]\<rparr>"

definition small_out :: "emit list" where
  "small_out =
       [Socket_emit ''A'' (Initial_messages []),
        Socket_emit ''A'' (Username_assigned ''SilentUser1''),
        Io_emit (User_count 1),
        Socket_emit ''B'' (Initial_messages []),
        Socket_emit ''B'' (Username_assigned ''GhostGuest2''),
        Io_emit (User_count 2),
        Io_emit (New_message (hello_msg\<lparr>votes := 0, voters := []\<rparr>)),
        Io_emit (Message_updated ''m1'' 1 [''B''])]"

text \<open>
  A store at capacity, with the ids \<^verbatim>\<open>x\<close>, \<^verbatim>\<open>xx\<close>, \<^verbatim>\<open>xxx\<close> and so on;
  \<open>evicted_state\<close> is what it becomes when \<open>A\<close> sends \<open>late_msg\<close>.
\<close>

definition full_state :: state where
  "full_state =
     \<lparr>messages = map (\<lambda>i. \<lparr>id_msg = replicate (Suc i) CHR ''x'', text_msg = JStr ''hi'',
                              username_msg = ''SilentUser1'', timestamp = i, votes = 0,
                              voters = []\<rparr>) [0..<100],
      users = [(''A'', \<lparr>username = ''SilentUser1'', joinedAt = 0\<rparr>)]\<rparr>"

definition late_msg :: message where
  "late_msg = \<lparr>id_msg = ''m1'', text_msg = JStr ''hello'', username_msg = ''SilentUser1'',
                timestamp = 7, votes = 0, voters = []\<rparr>"

definition evicted_state :: state where
  "evicted_state = full_state\<lparr>messages := tl (messages full_state) @ [late_msg]\<rparr>"

text \<open>
  A run in which sessions come and go; \<open>Z\<close> disconnects without having connected.
\<close>

definition churn_run :: "event list" where
  "churn_run =
     [Connection ''A'' ''SilentUser1'' 0,
      Connection ''B'' ''GhostGuest2'' 1,
      Disconnect ''A'',
      Connection ''C'' ''HiddenSoul3'' 2,
      Disconnect ''Z'']"

definition churn_state :: state where
  "churn_state =
     \<lparr>messages = [],
      users = [(''B'', \<lparr>username = ''GhostGuest2'', joinedAt = 1\<rparr>),
               (''C'', \<lparr>username = ''HiddenSoul3'', joinedAt = 2\<rparr>)]\<rparr>"

definition churn_out :: "emit list" where
  "churn_out =
     [Socket_emit ''A'' (Initial_messages []),
      Socket_emit ''A'' (Username_assigned ''SilentUser1''),
      Io_emit (User_count 1),
      Socket_emit ''B'' (Initial_messages []),
      Socket_emit ''B'' (Username_assigned ''GhostGuest2''),
      Io_emit (User_count 2),
      Io_emit (User_count 1),
      Socket_emit ''C'' (Initial_messages []),
      Socket_emit ''C'' (Username_assigned ''HiddenSoul3''),
      Io_emit (User_count 2),
      Io_emit (User_count 2)]"

text \<open>
  The run \<open>sent_run\<close> stops after the message has been sent; \<open>tally_run\<close> goes on after
  \<open>small_run\<close> with a down-vote by \<open>A\<close> and a second vote by \<open>B\<close>.
\<close>

definition sent_run :: "event list" where
  "sent_run =
     [Connection ''A'' ''SilentUser1'' 0,
      Connection ''B'' ''GhostGuest2'' 1,
      Send_message ''A'' (JObj [(''text'', JStr ''hello'')]) ''m1'' 2]"

definition sent_state :: state where
  "sent_state = voted_state\<lparr>messages := [hello_msg\<lparr>votes := 0, voters := []\<rparr>]\<rparr>"

definition sent_out :: "emit list" where
  "sent_out =
       [Socket_emit ''A'' (Initial_messages []),
        Socket_emit ''A'' (Username_assigned ''SilentUser1''),
        Io_emit (User_count 1),
        Socket_emit ''B'' (Initial_messages []),
        Socket_emit ''B'' (Username_assigned ''GhostGuest2''),
        Io_emit (User_count 2),
        Io_emit (New_message (hello_msg\<lparr>votes := 0, voters := []\<rparr>))]"

definition tally_run :: "event list" where
  "tally_run = small_run @
     [Vote_message ''A'' (vote_data ''m1'' ''down''),
      Vote_message ''B'' (vote_data ''m1'' ''down'')]"

definition tally_msg :: message where
  "tally_msg = hello_msg\<lparr>votes := 0, voters := [''B'', ''A'']\<rparr>"

definition tally_state :: state where
  "tally_state = voted_state\<lparr>messages := [tally_msg]\<rparr>"

definition tally_out :: "emit list" where
  "tally_out = small_out @
     [Io_emit (Message_updated ''m1'' 0 [''B'', ''A'']),
      Io_emit (Message_updated ''m1'' 0 [''B'', ''A''])]"

text \<open>
  From \<open>joined_state\<close>, where \<open>A\<close> and \<open>B\<close> are connected and nothing has been sent,
  \<open>A\<close> sends \<^verbatim>\<open>hello\<close> and then \<open>reply_run\<close> follows: \<open>B\<close> sends a message of its own
  and votes the first one up. \<open>replied_state\<close> is the state after that.
\<close>

definition joined_state :: state where
  "joined_state = voted_state\<lparr>messages := []\<rparr>"

definition reply_msg :: message where
  "reply_msg = \<lparr>id_msg = ''m2'', text_msg = JStr ''hi'', username_msg = ''GhostGuest2'',
                 timestamp = 3, votes = 0, voters = []\<rparr>"

definition replied_state :: state where
  "replied_state = voted_state\<lparr>messages := [hello_msg, reply_msg]\<rparr>"

definition reply_run :: "event list" where
  "reply_run =
     [Send_message ''B'' (JObj [(''text'', JStr ''hi'')]) ''m2'' 3,
      Vote_message ''B'' (vote_data ''m1'' ''up'')]"

definition replied_out :: "emit list" where
  "replied_out =
     [Io_emit (New_message (hello_msg\<lparr>votes := 0, voters := []\<rparr>)),
      Io_emit (New_message reply_msg),
      Io_emit (Message_updated ''m1'' 1 [''B''])]"

subsection \<open>Invariants of a run\<close>

text \<open>
  \<open>ledger_inv s l g\<close> relates the store to the list \<open>l\<close> of votes accepted so far and the
  set \<open>g\<close> of uuids drawn so far: the ids in the store are distinct and drawn, every
  accepted vote names a drawn id, and every stored message has the score and the number
  of voters that \<open>l\<close> gives it. \<open>voted_on s x v\<close> says that \<open>v\<close> is among the voters of every
  stored message with id \<open>x\<close>, \<open>authored_by s x name\<close> that every stored message with
  id \<open>x\<close> carries the username \<open>name\<close>.
\<close>

definition ledger_inv :: "state \<Rightarrow> vote_record list \<Rightarrow> string set \<Rightarrow> bool" where
  "ledger_inv s l g \<longleftrightarrow>
     distinct (map id_msg (messages s)) \<and>
     id_msg ` set (messages s) \<subseteq> g \<and>
     fst ` set l \<subseteq> g \<and>
     (\<forall>m\<in>set (messages s).
        distinct (voters m) \<and>
        votes m = int (up_votes (id_msg m) l) - int (down_votes (id_msg m) l) \<and>
        length (voters m) = up_votes (id_msg m) l + down_votes (id_msg m) l)"

definition voted_on :: "state \<Rightarrow> string \<Rightarrow> string \<Rightarrow> bool" where
  "voted_on s x v \<longleftrightarrow> (\<forall>m\<in>set (messages s). id_msg m = x \<longrightarrow> v \<in> set (voters m))"

definition authored_by :: "state \<Rightarrow> string \<Rightarrow> string \<Rightarrow> bool" where
  "authored_by s x name \<longleftrightarrow>
     (\<forall>m\<in>set (messages s). id_msg m = x \<longrightarrow> username_msg m = name)"

section \<open>Properties of the handlers\<close>

subsection \<open>What each handler returns\<close>

lemmas handler_defs = connection_def send_message_def vote_message_def disconnect_def
  strict_eq_str_def set_has_def set_add_def slice_last_def Let_def

lemma small_run_exec: "exec init_state small_run = Inr (voted_state, small_out)"
  by (simp add: small_run_def small_out_def init_state_def voted_state_def hello_msg_def
      vote_data_def handler_defs)

lemma assign_first_find_same: "find p ms = Some m \<Longrightarrow> assign_first p m ms = ms"
  by (induction ms) (auto split: if_splits)

lemma length_assign_first: "length (assign_first p m' ms) = length ms"
  by (induction ms) auto

lemma exec_induct_inv:
  assumes "exec s es = Inr (s', out)" and "P s"
    and step: "\<And>e t t' o'. P t \<Longrightarrow> handle e t = Inr (t', o') \<Longrightarrow> P t'"
  shows "P s'"
  using assms(1,2)
proof (induction es arbitrary: s out)
  case Nil
  then show ?case by simp
next
  case (Cons e es)
  from Cons.prems(1) obtain s1 o1 o2 where h: "handle e s = Inr (s1, o1)"
    and r: "exec s1 es = Inr (s', o2)"
    by (auto split: sum.splits prod.splits)
  from step[OF Cons.prems(2) h] have "P s1" .
  from Cons.IH[OF r this] show ?case .
qed

lemma handle_length_le:
  assumes "length (messages t) \<le> 100" and "handle e t = Inr (t', o')"
  shows "length (messages t') \<le> 100"
  using assms
  by (cases e) (auto simp: handler_defs length_assign_first split: option.splits sum.splits if_splits)

lemma exec_length_le:
  "exec init_state evs = Inr (s, out) \<Longrightarrow> length (messages s) \<le> 100"
  by (rule exec_induct_inv[where P = "\<lambda>s. length (messages s) \<le> 100"])
     (auto simp: init_state_def intro: handle_length_le)

lemma send_message_registered:
  assumes "map_of (users s) socket_id = Some u" and "get_prop data ''text'' = Inr txt"
  shows "send_message socket_id data uuid now s =
     Inr (s\<lparr>messages :=
             (if 100 \<le> length (messages s)
              then slice_last 100 (messages s @ [\<lparr>id_msg = uuid, text_msg = txt, username_msg = username u,
                  timestamp = now, votes = 0, voters = []\<rparr>])
              else messages s @ [\<lparr>id_msg = uuid, text_msg = txt, username_msg = username u,
                  timestamp = now, votes = 0, voters = []\<rparr>])\<rparr>,
          [Io_emit (New_message \<lparr>id_msg = uuid, text_msg = txt, username_msg = username u,
                  timestamp = now, votes = 0, voters = []\<rparr>)])"
  using assms by (simp add: send_message_def Let_def)

lemma slice_last_full: "length xs = n \<Longrightarrow> 0 < n \<Longrightarrow> slice_last n (xs @ [x]) = tl xs @ [x]"
  by (cases xs) (auto simp: slice_last_def)

lemma vote_message_found:
  assumes "get_prop data ''messageId'' = Inr mid"
    and "get_prop data ''voteType'' = Inr vt"
    and "find (\<lambda>m. strict_eq_str mid (id_msg m)) (messages s) = Some m"
  shows "vote_message v data s =
     (if (vt = JStr ''up'' \<or> vt = JStr ''down'') \<and> v \<notin> set (voters m) then
        Inr (s\<lparr>messages := assign_first (\<lambda>m. strict_eq_str mid (id_msg m))
                 (m\<lparr>votes := votes m + (if vt = JStr ''up'' then 1 else - 1),
                    voters := voters m @ [v]\<rparr>) (messages s)\<rparr>,
             [Io_emit (Message_updated (id_msg m)
                 (votes m + (if vt = JStr ''up'' then 1 else - 1)) (voters m @ [v]))])
      else Inr (s, [Io_emit (Message_updated (id_msg m) (votes m) (voters m))]))"
  using assms
  by (simp add: vote_message_def strict_eq_str_def set_has_def set_add_def Let_def
      assign_first_find_same)

lemma vote_message_not_found:
  assumes "get_prop data ''messageId'' = Inr mid"
    and "find (\<lambda>m. strict_eq_str mid (id_msg m)) (messages s) = None"
  shows "vote_message v data s = Inr (s, [])"
  using assms by (cases data) (simp_all add: vote_message_def)

lemma vote_message_users:
  "vote_message v data (s\<lparr>users := us\<rparr>) =
     map_sum id (\<lambda>(s', out). (s'\<lparr>users := us\<rparr>, out)) (vote_message v data s)"
  by (simp add: vote_message_def Let_def split: sum.splits option.splits)

lemma send_message_drop_iff:
  "send_message socket_id data uuid now s = Inr (s, []) \<longleftrightarrow> map_of (users s) socket_id = None"
  by (auto simp: send_message_def Let_def split: option.splits sum.splits)

text \<open>
  A payload of \<^verbatim>\<open>undefined\<close> or \<^verbatim>\<open>null\<close> makes the handler throw: the send handler
  once it has found the sender in \<^verbatim>\<open>users\<close>, the vote handler at once.
\<close>

lemma send_message_no_payload:
  assumes "map_of (users s) socket_id = Some u" and "data = JUndefined \<or> data = JNull"
  shows "send_message socket_id data uuid now s = Inl TypeError"
  using assms by (auto simp: send_message_def)

lemma vote_message_no_payload:
  assumes "data = JUndefined \<or> data = JNull"
  shows "vote_message socket_id data s = Inl TypeError"
  using assms by (auto simp: vote_message_def)

subsection \<open>The ids in the store\<close>

lemma map_assign_first:
  "find p ms = Some m \<Longrightarrow> f m' = f m \<Longrightarrow> map f (assign_first p m' ms) = map f ms"
  by (induction ms) (auto split: if_splits)

lemma vote_message_ids:
  assumes "vote_message v data s = Inr (s', out)"
  shows "map id_msg (messages s') = map id_msg (messages s)"
  using assms
  by (auto simp: vote_message_def Let_def map_assign_first split: sum.splits option.splits if_splits)

lemma vote_message_keeps_users:
  assumes "vote_message v data s = Inr (s', out)"
  shows "users s' = users s"
  using assms
  by (auto simp: vote_message_def Let_def split: sum.splits option.splits if_splits)

lemma send_message_cases:
  assumes "send_message socket_id data uuid now s = Inr (s', out)"
  shows "s' = s \<or>
         (\<exists>k new. messages s' = drop k (messages s @ [new]) \<and> id_msg new = uuid \<and>
                  votes new = 0 \<and> voters new = [])"
proof (cases "map_of (users s) socket_id")
  case None
  with assms show ?thesis by (simp add: send_message_def)
next
  case (Some u)
  from assms Some obtain tx where t: "get_prop data ''text'' = Inr tx"
    by (cases "get_prop data ''text''") (auto simp: send_message_def)
  define new where "new = \<lparr>id_msg = uuid, text_msg = tx, username_msg = username u,
                  timestamp = now, votes = 0, voters = []\<rparr>"
  from assms send_message_registered[OF Some t, of uuid now]
  have "messages s' = (if 100 \<le> length (messages s)
              then slice_last 100 (messages s @ [new]) else messages s @ [new])"
    by (auto simp: new_def)
  then have "messages s' = drop (length (messages s @ [new]) - 100) (messages s @ [new])"
    by (simp add: slice_last_def)
  moreover have "id_msg new = uuid \<and> votes new = 0 \<and> voters new = []"
    by (simp add: new_def)
  ultimately show ?thesis by blast
qed

lemma handle_ids:
  assumes "handle e t = Inr (t', o')"
  shows "id_msg ` set (messages t') \<subseteq> id_msg ` set (messages t) \<union> set (uuids [e])"
proof (cases e)
  case (Connection a n d)
  with assms show ?thesis by (auto simp: connection_def Let_def)
next
  case (Send_message a d u n)
  with assms have "send_message a d u n t = Inr (t', o')" by simp
  from send_message_cases[OF this] show ?thesis
  proof
    assume "t' = t" then show ?thesis by auto
  next
    assume "\<exists>k new. messages t' = drop k (messages t @ [new]) \<and> id_msg new = u \<and>
                  votes new = 0 \<and> voters new = []"
    then obtain k new where m: "messages t' = drop k (messages t @ [new])" and i: "id_msg new = u"
      by blast
    have "set (messages t') \<subseteq> set (messages t @ [new])"
      unfolding m by (rule set_drop_subset)
    with i Send_message show ?thesis by auto
  qed
next
  case (Vote_message v d)
  with assms have "map id_msg (messages t') = map id_msg (messages t)"
    by (auto dest: vote_message_ids)
  then have "set (map id_msg (messages t')) = set (map id_msg (messages t))" by simp
  then show ?thesis by auto
next
  case (Disconnect a)
  with assms show ?thesis by (auto simp: disconnect_def Let_def)
qed

lemma uuids_append: "uuids (xs @ ys) = uuids xs @ uuids ys"
  by (induction xs rule: uuids.induct) auto

lemma uuids_Cons: "set (uuids (e # es)) = set (uuids [e]) \<union> set (uuids es)"
  using uuids_append[of "[e]" es] by simp

lemma exec_ids:
  assumes "exec s es = Inr (s', out)"
  shows "id_msg ` set (messages s') \<subseteq> id_msg ` set (messages s) \<union> set (uuids es)"
  using assms
proof (induction es arbitrary: s out)
  case Nil
  then show ?case by simp
next
  case (Cons e es)
  from Cons.prems obtain s1 o1 o2 where h: "handle e s = Inr (s1, o1)"
    and r: "exec s1 es = Inr (s', o2)"
    by (auto split: sum.splits prod.splits)
  from Cons.IH[OF r] handle_ids[OF h] show ?case
    unfolding uuids_Cons[of e es] by blast
qed

lemma find_None_ids:
  "find (\<lambda>m. strict_eq_str (JStr x) (id_msg m)) ms = None \<longleftrightarrow> x \<notin> id_msg ` set ms"
  by (auto simp: find_None_iff strict_eq_str_def)

lemma find_ids_None:
  "x \<notin> f ` set ms \<Longrightarrow> find (\<lambda>m. f m = x) ms = None"
  by (auto simp: find_None_iff)

lemma evicted_not_found:
  assumes "distinct (map id_msg ms)" and "ms \<noteq> []" and "id_msg new \<notin> id_msg ` set ms"
  shows "find (\<lambda>m. id_msg m = id_msg (hd ms)) (tl ms @ [new]) = None"
proof -
  from assms(2) obtain m ms' where ms: "ms = m # ms'" by (cases ms) auto
  with assms(1,3) have "id_msg m \<notin> id_msg ` set (ms' @ [new])" by auto
  then show ?thesis unfolding ms by (simp add: find_ids_None)
qed

subsection \<open>The bounded store\<close>

text \<open>
  Claim C3. Whatever events have been handled since the server started, the store holds
  at most 100 messages. A send by a registered session into a store of exactly 100
  messages leaves the previous list without its entry at index 0 and with the new
  message at the end. The score and the voters of the evicted message are fields of
  that message and leave with it: when the ids in the store are distinct and the new
  uuid is not among them, no message with the evicted id is found afterwards.
\<close>

theorem store_bounded_fifo:
  "(exec init_state evs = Inr (s, out) \<longrightarrow> length (messages s) \<le> 100) \<and>
   (length (messages t) = 100 \<and> map_of (users t) socket_id = Some u \<and>
    get_prop data ''text'' = Inr tx \<longrightarrow>
      (let new = \<lparr>id_msg = uuid, text_msg = tx, username_msg = username u,
                   timestamp = now, votes = 0, voters = []\<rparr>
       in send_message socket_id data uuid now t =
            Inr (t\<lparr>messages := tl (messages t) @ [new]\<rparr>, [Io_emit (New_message new)]) \<and>
          (distinct (map id_msg (messages t)) \<and> uuid \<notin> id_msg ` set (messages t) \<longrightarrow>
             find (\<lambda>m. id_msg m = id_msg (hd (messages t))) (tl (messages t) @ [new]) = None)))"
proof (intro conjI impI)
  assume "exec init_state evs = Inr (s, out)"
  then show "length (messages s) \<le> 100" by (rule exec_length_le)
next
  assume a: "length (messages t) = 100 \<and> map_of (users t) socket_id = Some u \<and>
    get_prop data ''text'' = Inr tx"
  then have ne: "messages t \<noteq> []" by auto
  from a have "send_message socket_id data uuid now t =
      Inr (t\<lparr>messages := tl (messages t) @ [\<lparr>id_msg = uuid, text_msg = tx, username_msg = username u,
                   timestamp = now, votes = 0, voters = []\<rparr>]\<rparr>,
          [Io_emit (New_message \<lparr>id_msg = uuid, text_msg = tx, username_msg = username u,
                   timestamp = now, votes = 0, voters = []\<rparr>)])"
    by (simp add: send_message_registered slice_last_full)
  moreover have "distinct (map id_msg (messages t)) \<and> uuid \<notin> id_msg ` set (messages t) \<longrightarrow>
      find (\<lambda>m. id_msg m = id_msg (hd (messages t)))
        (tl (messages t) @ [\<lparr>id_msg = uuid, text_msg = tx, username_msg = username u,
                   timestamp = now, votes = 0, voters = []\<rparr>]) = None"
    using ne by (auto intro!: evicted_not_found)
  ultimately show "let new = \<lparr>id_msg = uuid, text_msg = tx, username_msg = username u,
                   timestamp = now, votes = 0, voters = []\<rparr>
       in send_message socket_id data uuid now t =
            Inr (t\<lparr>messages := tl (messages t) @ [new]\<rparr>, [Io_emit (New_message new)]) \<and>
          (distinct (map id_msg (messages t)) \<and> uuid \<notin> id_msg ` set (messages t) \<longrightarrow>
             find (\<lambda>m. id_msg m = id_msg (hd (messages t))) (tl (messages t) @ [new]) = None)"
    unfolding Let_def by blast
qed

text \<open>The store of \<open>full_state\<close> is full; \<open>A\<close> sends one more message.\<close>

lemma full_state_length: "length (messages full_state) = 100"
  by (simp add: full_state_def)

lemma full_state_ids:
  "map id_msg (messages full_state) = map (\<lambda>i. replicate (Suc i) CHR ''x'') [0..<100]"
  by (simp add: full_state_def comp_def)

lemma replicate_x_inj: "inj_on (\<lambda>i. replicate (Suc i) CHR ''x'') A"
proof (rule inj_onI)
  fix i j :: nat
  assume "replicate (Suc i) CHR ''x'' = replicate (Suc j) CHR ''x''"
  then have "length (replicate (Suc i) CHR ''x'') = length (replicate (Suc j) CHR ''x'')"
    by (rule arg_cong)
  then show "i = j" by simp
qed

lemma full_state_distinct: "distinct (map id_msg (messages full_state))"
  unfolding full_state_ids distinct_map using replicate_x_inj by simp

lemma replicate_x_not_m1: "replicate i CHR ''x'' \<noteq> ''m1''"
proof
  assume "replicate i CHR ''x'' = ''m1''"
  then have "CHR ''m'' \<in> set (replicate i CHR ''x'')" by simp
  then show False by (simp split: if_splits)
qed

lemma full_state_fresh: "''m1'' \<notin> id_msg ` set (messages full_state)"
proof
  assume "''m1'' \<in> id_msg ` set (messages full_state)"
  then have "''m1'' \<in> set (map id_msg (messages full_state))" by simp
  then have "''m1'' \<in> (\<lambda>i. replicate (Suc i) CHR ''x'') ` set [0..<100]"
    unfolding full_state_ids by (simp only: set_map)
  then obtain i where "''m1'' = replicate (Suc i) CHR ''x''" by (rule imageE)
  then have "replicate (Suc i) CHR ''x'' = ''m1''" by (rule sym)
  with replicate_x_not_m1[of "Suc i"] show False by (rule notE)
qed

lemma full_state_oldest: "id_msg (hd (messages full_state)) = ''x''"
proof -
  have "[0..<100] = 0 # [1..<100]" by (simp add: upt_conv_Cons)
  then show ?thesis by (simp add: full_state_def)
qed

theorem store_bounded_fifo_witness:
  "exec init_state small_run = Inr (voted_state, small_out) \<and>
   length (messages voted_state) \<le> 100 \<and>
   length (messages full_state) = 100 \<and>
   map_of (users full_state) ''A'' = Some \<lparr>username = ''SilentUser1'', joinedAt = 0\<rparr> \<and>
   get_prop (JObj [(''text'', JStr ''hello'')]) ''text'' = Inr (JStr ''hello'') \<and>
   distinct (map id_msg (messages full_state)) \<and>
   ''m1'' \<notin> id_msg ` set (messages full_state) \<and>
   send_message ''A'' (JObj [(''text'', JStr ''hello'')]) ''m1'' 7 full_state =
     Inr (evicted_state, [Io_emit (New_message late_msg)]) \<and>
   messages evicted_state = tl (messages full_state) @ [late_msg] \<and>
   find (\<lambda>m. id_msg m = id_msg (hd (messages full_state))) (messages evicted_state) = None"
proof -
  have u: "map_of (users full_state) ''A'' = Some \<lparr>username = ''SilentUser1'', joinedAt = 0\<rparr>"
    by (simp add: full_state_def)
  have g: "get_prop (JObj [(''text'', JStr ''hello'')]) ''text'' = Inr (JStr ''hello'')"
    by simp
  show ?thesis
    using store_bounded_fifo[of small_run voted_state small_out full_state "''A''"
        "\<lparr>username = ''SilentUser1'', joinedAt = 0\<rparr>" "JObj [(''text'', JStr ''hello'')]"
        "JStr ''hello''" "''m1''" 7]
      small_run_exec full_state_length full_state_distinct full_state_fresh u g
    by (simp add: Let_def evicted_state_def late_msg_def)
qed

subsection \<open>A vote by a session that has voted already\<close>

text \<open>
  Claim C4, as the code has it. When the voter is already among the voters of the
  message the vote names, the handler changes nothing in the state, so the score stays,
  and it still broadcasts \<^verbatim>\<open>message_updated\<close> with the unchanged score and voters:
  \<^verbatim>\<open>io.emit\<close> is outside both branches of the handler.
\<close>

theorem repeated_vote_rebroadcast:
  assumes "get_prop data ''messageId'' = Inr mid"
    and "get_prop data ''voteType'' = Inr vt"
    and "find (\<lambda>m. strict_eq_str mid (id_msg m)) (messages s) = Some m"
    and "set_has (voters m) socket_id"
  shows "vote_message socket_id data s =
           Inr (s, [Io_emit (Message_updated (id_msg m) (votes m) (voters m))])"
  using assms by (simp add: vote_message_found set_has_def)

theorem repeated_vote_rebroadcast_witness:
  "get_prop (vote_data ''m1'' ''down'') ''messageId'' = Inr (JStr ''m1'') \<and>
   get_prop (vote_data ''m1'' ''down'') ''voteType'' = Inr (JStr ''down'') \<and>
   find (\<lambda>m. strict_eq_str (JStr ''m1'') (id_msg m)) (messages voted_state) = Some hello_msg \<and>
   set_has (voters hello_msg) ''B'' \<and>
   vote_message ''B'' (vote_data ''m1'' ''down'') voted_state =
     Inr (voted_state, [Io_emit (Message_updated (id_msg hello_msg) (votes hello_msg)
                                   (voters hello_msg))])"
proof -
  have a: "get_prop (vote_data ''m1'' ''down'') ''messageId'' = Inr (JStr ''m1'')"
    by (simp add: vote_data_def)
  have b: "get_prop (vote_data ''m1'' ''down'') ''voteType'' = Inr (JStr ''down'')"
    by (simp add: vote_data_def)
  have c: "find (\<lambda>m. strict_eq_str (JStr ''m1'') (id_msg m)) (messages voted_state) =
             Some hello_msg"
    by (simp add: voted_state_def hello_msg_def strict_eq_str_def)
  have d: "set_has (voters hello_msg) ''B''"
    by (simp add: hello_msg_def set_has_def)
  from repeated_vote_rebroadcast[OF a b c d] a b c d show ?thesis by simp
qed

text \<open>
  The run \<open>small_run\<close> ends with the up-vote of \<open>B\<close>; a second vote by \<open>B\<close>, down this
  time, is answered with a broadcast.
\<close>

theorem repeated_vote_counterexample:
  "exec init_state small_run = Inr (voted_state, small_out) \<and>
   messages voted_state = [hello_msg] \<and>
   id_msg hello_msg = ''m1'' \<and>
   set_has (voters hello_msg) ''B'' \<and>
   vote_message ''B'' (vote_data ''m1'' ''down'') voted_state =
     Inr (voted_state, [Io_emit (Message_updated ''m1'' 1 [''B''])])"
  by (simp add: small_run_def small_out_def init_state_def voted_state_def hello_msg_def
      vote_data_def handler_defs)

subsection \<open>Payloads the server does not validate\<close>

text \<open>
  Claim C5, as the code has it. The server validates neither the text nor the vote
  direction. A send by a registered session whose text is missing (\<^verbatim>\<open>undefined\<close>) or
  empty appends a message with that text, evicting the oldest one at capacity, and
  broadcasts \<^verbatim>\<open>new_message\<close>. A vote whose direction is neither \<^verbatim>\<open>'up'\<close> nor
  \<^verbatim>\<open>'down'\<close> leaves the state as it was; when the message it names is in the store,
  \<^verbatim>\<open>message_updated\<close> is broadcast with the unchanged score and voters, and nothing is
  broadcast otherwise.
\<close>

theorem unvalidated_input:
  "(map_of (users s) socket_id = Some u \<and> get_prop data ''text'' = Inr tx \<and>
    (tx = JUndefined \<or> tx = JStr '''') \<longrightarrow>
      (let new = \<lparr>id_msg = uuid, text_msg = tx, username_msg = username u,
                   timestamp = now, votes = 0, voters = []\<rparr>
       in send_message socket_id data uuid now s =
            Inr (s\<lparr>messages :=
                    (if 100 \<le> length (messages s)
                     then slice_last 100 (messages s @ [new])
                     else messages s @ [new])\<rparr>,
                 [Io_emit (New_message new)]))) \<and>
   (get_prop vdata ''messageId'' = Inr mid \<and> get_prop vdata ''voteType'' = Inr vt \<and>
    vt \<noteq> JStr ''up'' \<and> vt \<noteq> JStr ''down'' \<longrightarrow>
      vote_message voter vdata s =
        Inr (s, case find (\<lambda>m. strict_eq_str mid (id_msg m)) (messages s) of
                  None \<Rightarrow> []
                | Some m \<Rightarrow> [Io_emit (Message_updated (id_msg m) (votes m) (voters m))]))"
proof (intro conjI impI)
  assume "map_of (users s) socket_id = Some u \<and> get_prop data ''text'' = Inr tx \<and>
    (tx = JUndefined \<or> tx = JStr '''')"
  then show "let new = \<lparr>id_msg = uuid, text_msg = tx, username_msg = username u,
                   timestamp = now, votes = 0, voters = []\<rparr>
       in send_message socket_id data uuid now s =
            Inr (s\<lparr>messages :=
                    (if 100 \<le> length (messages s)
                     then slice_last 100 (messages s @ [new])
                     else messages s @ [new])\<rparr>,
                 [Io_emit (New_message new)])"
    unfolding Let_def using send_message_registered[of s socket_id u data tx uuid now] by blast
next
  assume a: "get_prop vdata ''messageId'' = Inr mid \<and> get_prop vdata ''voteType'' = Inr vt \<and>
    vt \<noteq> JStr ''up'' \<and> vt \<noteq> JStr ''down''"
  show "vote_message voter vdata s =
        Inr (s, case find (\<lambda>m. strict_eq_str mid (id_msg m)) (messages s) of
                  None \<Rightarrow> []
                | Some m \<Rightarrow> [Io_emit (Message_updated (id_msg m) (votes m) (voters m))])"
  proof (cases "find (\<lambda>m. strict_eq_str mid (id_msg m)) (messages s)")
    case None
    with a show ?thesis by (simp add: vote_message_not_found)
  next
    case (Some m)
    with a show ?thesis by (simp add: vote_message_found)
  qed
qed

theorem unvalidated_input_witness:
  "map_of (users voted_state) ''A'' = Some \<lparr>username = ''SilentUser1'', joinedAt = 0\<rparr> \<and>
   get_prop (JObj []) ''text'' = Inr JUndefined \<and>
   send_message ''A'' (JObj []) ''m2'' 3 voted_state =
     Inr (voted_state\<lparr>messages :=
            [hello_msg, \<lparr>id_msg = ''m2'', text_msg = JUndefined, username_msg = ''SilentUser1'',
                         timestamp = 3, votes = 0, voters = []\<rparr>]\<rparr>,
          [Io_emit (New_message \<lparr>id_msg = ''m2'', text_msg = JUndefined,
                                 username_msg = ''SilentUser1'', timestamp = 3, votes = 0,
                                 voters = []\<rparr>)]) \<and>
   get_prop (vote_data ''m1'' ''sideways'') ''messageId'' = Inr (JStr ''m1'') \<and>
   get_prop (vote_data ''m1'' ''sideways'') ''voteType'' = Inr (JStr ''sideways'') \<and>
   JStr ''sideways'' \<noteq> JStr ''up'' \<and> JStr ''sideways'' \<noteq> JStr ''down'' \<and>
   vote_message ''A'' (vote_data ''m1'' ''sideways'') voted_state =
     Inr (voted_state, [Io_emit (Message_updated ''m1'' 1 [''B''])])"
proof -
  have u: "map_of (users voted_state) ''A'' = Some \<lparr>username = ''SilentUser1'', joinedAt = 0\<rparr>"
    by (simp add: voted_state_def)
  have m: "messages voted_state = [hello_msg]"
    by (simp add: voted_state_def)
  have h: "id_msg hello_msg = ''m1''" "votes hello_msg = 1" "voters hello_msg = [''B'']"
    by (simp_all add: hello_msg_def)
  show ?thesis
    using unvalidated_input[of voted_state "''A''" "\<lparr>username = ''SilentUser1'', joinedAt = 0\<rparr>"
        "JObj []" JUndefined "''m2''" 3 "vote_data ''m1'' ''sideways''" "JStr ''m1''"
        "JStr ''sideways''" "''A''"] u
    by (simp add: Let_def m h vote_data_def strict_eq_str_def)
qed

text \<open>
  In \<open>voted_state\<close>, a send without text and a send with the empty text are both
  appended and broadcast, and a vote with the direction \<^verbatim>\<open>sideways\<close> is broadcast.
\<close>

theorem unvalidated_input_counterexample:
  "map_of (users voted_state) ''A'' = Some \<lparr>username = ''SilentUser1'', joinedAt = 0\<rparr> \<and>
   send_message ''A'' (JObj []) ''m2'' 3 voted_state =
     Inr (voted_state\<lparr>messages :=
            [hello_msg, \<lparr>id_msg = ''m2'', text_msg = JUndefined, username_msg = ''SilentUser1'',
                         timestamp = 3, votes = 0, voters = []\<rparr>]\<rparr>,
          [Io_emit (New_message \<lparr>id_msg = ''m2'', text_msg = JUndefined,
                                 username_msg = ''SilentUser1'', timestamp = 3, votes = 0,
                                 voters = []\<rparr>)]) \<and>
   send_message ''A'' (JObj [(''text'', JStr '''')]) ''m2'' 3 voted_state =
     Inr (voted_state\<lparr>messages :=
            [hello_msg, \<lparr>id_msg = ''m2'', text_msg = JStr '''', username_msg = ''SilentUser1'',
                         timestamp = 3, votes = 0, voters = []\<rparr>]\<rparr>,
          [Io_emit (New_message \<lparr>id_msg = ''m2'', text_msg = JStr '''',
                                 username_msg = ''SilentUser1'', timestamp = 3, votes = 0,
                                 voters = []\<rparr>)]) \<and>
   vote_message ''A'' (vote_data ''m1'' ''sideways'') voted_state =
     Inr (voted_state, [Io_emit (Message_updated ''m1'' 1 [''B''])])"
  by (simp add: voted_state_def hello_msg_def vote_data_def handler_defs)

lemma find_snoc_last:
  "\<forall>x\<in>set xs. \<not> p x \<Longrightarrow> p y \<Longrightarrow> find p (xs @ [y]) = Some y"
  by (induction xs) auto

lemma assign_first_snoc_last:
  "\<forall>x\<in>set xs. \<not> p x \<Longrightarrow> p y \<Longrightarrow> assign_first p y' (xs @ [y]) = xs @ [y']"
  by (induction xs) auto

lemma send_message_registered_snoc:
  assumes "map_of (users s) socket_id = Some u" and "get_prop data ''text'' = Inr tx"
  shows "send_message socket_id data uuid now s =
     Inr (s\<lparr>messages := drop (length (messages s) - 99) (messages s) @
              [\<lparr>id_msg = uuid, text_msg = tx, username_msg = username u,
                 timestamp = now, votes = 0, voters = []\<rparr>]\<rparr>,
          [Io_emit (New_message \<lparr>id_msg = uuid, text_msg = tx, username_msg = username u,
                  timestamp = now, votes = 0, voters = []\<rparr>)])"
  using assms by (simp add: send_message_registered slice_last_def)

subsection \<open>A vote on a message that is not in the store\<close>

text \<open>
  Claim C6. A vote whose \<^verbatim>\<open>messageId\<close> equals the id of no stored message returns
  the state as it was and emits nothing. A message id that is absent from the store stays
  absent for as long as \<^verbatim>\<open>uuidv4()\<close> does not return it again, whatever events are
  handled in between; so a vote on a message that has been evicted changes nothing and is
  not broadcast.
\<close>

theorem unknown_message_vote:
  "(get_prop data ''messageId'' = Inr mid \<and> mid \<notin> JStr ` id_msg ` set (messages s) \<longrightarrow>
      vote_message voter data s = Inr (s, [])) \<and>
   (x \<notin> id_msg ` set (messages t) \<and> x \<notin> set (uuids evs) \<and> exec t evs = Inr (t', out) \<and>
    get_prop data' ''messageId'' = Inr (JStr x) \<longrightarrow>
      vote_message voter data' t' = Inr (t', []))"
proof (intro conjI impI)
  assume "get_prop data ''messageId'' = Inr mid \<and> mid \<notin> JStr ` id_msg ` set (messages s)"
  then have "get_prop data ''messageId'' = Inr mid"
    and "find (\<lambda>m. strict_eq_str mid (id_msg m)) (messages s) = None"
    by (auto simp: find_None_iff strict_eq_str_def)
  then show "vote_message voter data s = Inr (s, [])"
    by (rule vote_message_not_found)
next
  assume a: "x \<notin> id_msg ` set (messages t) \<and> x \<notin> set (uuids evs) \<and>
    exec t evs = Inr (t', out) \<and> get_prop data' ''messageId'' = Inr (JStr x)"
  then have "exec t evs = Inr (t', out)" by simp
  then have "id_msg ` set (messages t') \<subseteq> id_msg ` set (messages t) \<union> set (uuids evs)"
    by (rule exec_ids)
  with a have "x \<notin> id_msg ` set (messages t')" by blast
  then have "find (\<lambda>m. strict_eq_str (JStr x) (id_msg m)) (messages t') = None"
    by (simp add: find_None_ids)
  with a show "vote_message voter data' t' = Inr (t', [])"
    by (simp add: vote_message_not_found)
qed

text \<open>
  The id \<^verbatim>\<open>x\<close> of the message that \<open>evicted_state\<close> has lost is voted on, at once and
  after another client has connected.
\<close>

lemma evicted_state_absent: "''x'' \<notin> id_msg ` set (messages evicted_state)"
proof -
  have "messages full_state \<noteq> []"
    using full_state_length by auto
  moreover have "id_msg late_msg \<notin> id_msg ` set (messages full_state)"
    using full_state_fresh by (simp add: late_msg_def)
  ultimately have "find (\<lambda>m. id_msg m = id_msg (hd (messages full_state)))
      (tl (messages full_state) @ [late_msg]) = None"
    using full_state_distinct by (intro evicted_not_found)
  then show ?thesis
    unfolding full_state_oldest by (auto simp: find_None_iff evicted_state_def)
qed

lemma evicted_state_users:
  "users evicted_state = [(''A'', \<lparr>username = ''SilentUser1'', joinedAt = 0\<rparr>)]"
  by (simp add: evicted_state_def full_state_def)

theorem unknown_message_vote_witness:
  "get_prop (vote_data ''x'' ''up'') ''messageId'' = Inr (JStr ''x'') \<and>
   JStr ''x'' \<notin> JStr ` id_msg ` set (messages evicted_state) \<and>
   vote_message ''A'' (vote_data ''x'' ''up'') evicted_state = Inr (evicted_state, []) \<and>
   ''x'' \<notin> id_msg ` set (messages evicted_state) \<and>
   ''x'' \<notin> set (uuids [Connection ''B'' ''GhostGuest2'' 9]) \<and>
   exec evicted_state [Connection ''B'' ''GhostGuest2'' 9] =
     Inr (evicted_state\<lparr>users := [(''A'', \<lparr>username = ''SilentUser1'', joinedAt = 0\<rparr>),
                                    (''B'', \<lparr>username = ''GhostGuest2'', joinedAt = 9\<rparr>)]\<rparr>,
          [Socket_emit ''B'' (Initial_messages (messages evicted_state)),
           Socket_emit ''B'' (Username_assigned ''GhostGuest2''),
           Io_emit (User_count 2)]) \<and>
   vote_message ''A'' (vote_data ''x'' ''up'')
     (evicted_state\<lparr>users := [(''A'', \<lparr>username = ''SilentUser1'', joinedAt = 0\<rparr>),
                               (''B'', \<lparr>username = ''GhostGuest2'', joinedAt = 9\<rparr>)]\<rparr>) =
     Inr (evicted_state\<lparr>users := [(''A'', \<lparr>username = ''SilentUser1'', joinedAt = 0\<rparr>),
                                    (''B'', \<lparr>username = ''GhostGuest2'', joinedAt = 9\<rparr>)]\<rparr>,
          [])"
proof -
  have a: "get_prop (vote_data ''x'' ''up'') ''messageId'' = Inr (JStr ''x'')"
    by (simp add: vote_data_def)
  have b: "JStr ''x'' \<notin> JStr ` id_msg ` set (messages evicted_state)"
    using evicted_state_absent by auto
  have d: "''x'' \<notin> set (uuids [Connection ''B'' ''GhostGuest2'' 9])"
    by simp
  have e: "exec evicted_state [Connection ''B'' ''GhostGuest2'' 9] =
     Inr (evicted_state\<lparr>users := [(''A'', \<lparr>username = ''SilentUser1'', joinedAt = 0\<rparr>),
                                    (''B'', \<lparr>username = ''GhostGuest2'', joinedAt = 9\<rparr>)]\<rparr>,
          [Socket_emit ''B'' (Initial_messages (messages evicted_state)),
           Socket_emit ''B'' (Username_assigned ''GhostGuest2''),
           Io_emit (User_count 2)])"
    by (simp add: connection_def Let_def evicted_state_users)
  from unknown_message_vote[of "vote_data ''x'' ''up''" "JStr ''x''" evicted_state "''A''"
      "''x''" evicted_state "[Connection ''B'' ''GhostGuest2'' 9]" _ _ "vote_data ''x'' ''up''"]
    a b d e evicted_state_absent
  show ?thesis by simp
qed

subsection \<open>Sending a message\<close>

text \<open>
  Claim C7. The \<^verbatim>\<open>send_message\<close> handler returns without a change of state and without
  a broadcast exactly when the socket id has no entry in \<^verbatim>\<open>users\<close>. For a registered
  session whose payload has a readable \<^verbatim>\<open>text\<close>, the message appended at the end of the
  store and broadcast has \<^verbatim>\<open>votes\<close> 0, no voters, and the username registered for
  that session.
\<close>

theorem send_message_session:
  "(send_message socket_id data uuid now s = Inr (s, []) \<longleftrightarrow>
      map_of (users s) socket_id = None) \<and>
   (map_of (users s) socket_id = Some u \<and> get_prop data ''text'' = Inr tx \<longrightarrow>
      (let new = \<lparr>id_msg = uuid, text_msg = tx, username_msg = username u,
                   timestamp = now, votes = 0, voters = []\<rparr>
       in send_message socket_id data uuid now s =
            Inr (s\<lparr>messages := drop (length (messages s) - 99) (messages s) @ [new]\<rparr>,
                 [Io_emit (New_message new)]) \<and>
          votes new = 0 \<and> voters new = [] \<and> username_msg new = username u))"
  by (simp add: send_message_drop_iff send_message_registered_snoc Let_def)

theorem send_message_session_witness:
  "map_of (users voted_state) ''A'' = Some \<lparr>username = ''SilentUser1'', joinedAt = 0\<rparr> \<and>
   get_prop (JObj [(''text'', JStr ''again'')]) ''text'' = Inr (JStr ''again'') \<and>
   send_message ''A'' (JObj [(''text'', JStr ''again'')]) ''m2'' 3 voted_state =
     Inr (voted_state\<lparr>messages :=
            [hello_msg, \<lparr>id_msg = ''m2'', text_msg = JStr ''again'',
                         username_msg = ''SilentUser1'', timestamp = 3, votes = 0,
                         voters = []\<rparr>]\<rparr>,
          [Io_emit (New_message \<lparr>id_msg = ''m2'', text_msg = JStr ''again'',
                                 username_msg = ''SilentUser1'', timestamp = 3, votes = 0,
                                 voters = []\<rparr>)]) \<and>
   map_of (users voted_state) ''C'' = None \<and>
   send_message ''C'' (JObj [(''text'', JStr ''again'')]) ''m2'' 3 voted_state =
     Inr (voted_state, [])"
proof -
  have u: "map_of (users voted_state) ''A'' = Some \<lparr>username = ''SilentUser1'', joinedAt = 0\<rparr>"
    by (simp add: voted_state_def)
  have n: "map_of (users voted_state) ''C'' = None"
    by (simp add: voted_state_def)
  have m: "messages voted_state = [hello_msg]"
    by (simp add: voted_state_def)
  show ?thesis
    using send_message_session[of "''A''" "JObj [(''text'', JStr ''again'')]" "''m2''" 3
        voted_state "\<lparr>username = ''SilentUser1'', joinedAt = 0\<rparr>" "JStr ''again''"]
      send_message_session[of "''C''" "JObj [(''text'', JStr ''again'')]" "''m2''" 3
        voted_state] u n
    by (simp add: Let_def m)
qed

subsection \<open>Disconnecting\<close>

lemma vote_message_decided:
  assumes "get_prop data ''messageId'' = Inr mid" and "get_prop data ''voteType'' = Inr vt"
  shows "vote_message voter data s =
     (case find (\<lambda>m. strict_eq_str mid (id_msg m)) (messages s) of
        None \<Rightarrow> Inr (s, [])
      | Some m \<Rightarrow>
          if (vt = JStr ''up'' \<or> vt = JStr ''down'') \<and> voter \<notin> set (voters m) then
            Inr (s\<lparr>messages := assign_first (\<lambda>m. strict_eq_str mid (id_msg m))
                     (m\<lparr>votes := votes m + (if vt = JStr ''up'' then 1 else - 1),
                        voters := voters m @ [voter]\<rparr>) (messages s)\<rparr>,
                 [Io_emit (Message_updated (id_msg m)
                     (votes m + (if vt = JStr ''up'' then 1 else - 1)) (voters m @ [voter]))])
          else Inr (s, [Io_emit (Message_updated (id_msg m) (votes m) (voters m))]))"
proof (cases "find (\<lambda>m. strict_eq_str mid (id_msg m)) (messages s)")
  case None
  with vote_message_not_found[OF assms(1) None, of voter] show ?thesis by simp
next
  case (Some m)
  with vote_message_found[OF assms Some, of voter] show ?thesis by simp
qed

text \<open>
  Claim C8. The \<^verbatim>\<open>disconnect\<close> handler leaves the store as it is, with every score and
  every voters set, and removes from \<^verbatim>\<open>users\<close> the entry of that socket id only. The
  \<^verbatim>\<open>vote_message\<close> handler does not read \<^verbatim>\<open>users\<close>: after the disconnect a vote by any
  voter has the outcome it would have had without the disconnect, but for the
  \<^verbatim>\<open>users\<close> component it carries along. A vote that the departed socket id casts after
  its disconnect is decided by the message it names alone: dropped when no stored
  message has that id; counted, with the score moved by one and the socket id added to
  the voters, when the direction is \<^verbatim>\<open>'up'\<close> or \<^verbatim>\<open>'down'\<close> and the socket id is not
  among the voters of that message; and answered with the unchanged score and voters
  otherwise.
\<close>

theorem disconnect_frame:
  "messages (fst (disconnect socket_id s)) = messages s \<and>
   map_of (users (fst (disconnect socket_id s))) = (map_of (users s))(socket_id := None) \<and>
   vote_message voter data (fst (disconnect socket_id s)) =
     map_sum id (\<lambda>(s', out). (s'\<lparr>users := AList.delete socket_id (users s)\<rparr>, out))
       (vote_message voter data s) \<and>
   (get_prop data ''messageId'' = Inr mid \<and> get_prop data ''voteType'' = Inr vt \<longrightarrow>
      vote_message socket_id data (fst (disconnect socket_id s)) =
        (case find (\<lambda>m. strict_eq_str mid (id_msg m)) (messages s) of
           None \<Rightarrow> Inr (fst (disconnect socket_id s), [])
         | Some m \<Rightarrow>
             if (vt = JStr ''up'' \<or> vt = JStr ''down'') \<and> socket_id \<notin> set (voters m) then
               Inr ((fst (disconnect socket_id s))
                      \<lparr>messages := assign_first (\<lambda>m. strict_eq_str mid (id_msg m))
                         (m\<lparr>votes := votes m + (if vt = JStr ''up'' then 1 else - 1),
                            voters := voters m @ [socket_id]\<rparr>) (messages s)\<rparr>,
                    [Io_emit (Message_updated (id_msg m)
                       (votes m + (if vt = JStr ''up'' then 1 else - 1))
                       (voters m @ [socket_id]))])
             else Inr (fst (disconnect socket_id s),
                       [Io_emit (Message_updated (id_msg m) (votes m) (voters m))])))"
proof (intro conjI impI)
  show "messages (fst (disconnect socket_id s)) = messages s"
    by (simp add: disconnect_def Let_def)
  show "map_of (users (fst (disconnect socket_id s))) = (map_of (users s))(socket_id := None)"
    by (simp add: disconnect_def Let_def delete_conv')
  show "vote_message voter data (fst (disconnect socket_id s)) =
     map_sum id (\<lambda>(s', out). (s'\<lparr>users := AList.delete socket_id (users s)\<rparr>, out))
       (vote_message voter data s)"
    by (simp add: disconnect_def Let_def vote_message_users)
next
  assume a: "get_prop data ''messageId'' = Inr mid \<and> get_prop data ''voteType'' = Inr vt"
  have m: "messages (fst (disconnect socket_id s)) = messages s"
    by (simp add: disconnect_def Let_def)
  from a have g1: "get_prop data ''messageId'' = Inr mid"
    and g2: "get_prop data ''voteType'' = Inr vt" by simp_all
  show "vote_message socket_id data (fst (disconnect socket_id s)) =
        (case find (\<lambda>m. strict_eq_str mid (id_msg m)) (messages s) of
           None \<Rightarrow> Inr (fst (disconnect socket_id s), [])
         | Some m \<Rightarrow>
             if (vt = JStr ''up'' \<or> vt = JStr ''down'') \<and> socket_id \<notin> set (voters m) then
               Inr ((fst (disconnect socket_id s))
                      \<lparr>messages := assign_first (\<lambda>m. strict_eq_str mid (id_msg m))
                         (m\<lparr>votes := votes m + (if vt = JStr ''up'' then 1 else - 1),
                            voters := voters m @ [socket_id]\<rparr>) (messages s)\<rparr>,
                    [Io_emit (Message_updated (id_msg m)
                       (votes m + (if vt = JStr ''up'' then 1 else - 1))
                       (voters m @ [socket_id]))])
             else Inr (fst (disconnect socket_id s),
                       [Io_emit (Message_updated (id_msg m) (votes m) (voters m))]))"
    unfolding vote_message_decided[OF g1 g2, of socket_id "fst (disconnect socket_id s)"] m ..
qed

text \<open>
  In \<open>voted_state\<close>, \<open>B\<close> has voted on the message and \<open>A\<close> has not. Once disconnected,
  \<open>B\<close> is refused a second vote and \<open>A\<close> is granted its first.
\<close>

theorem disconnect_frame_witness:
  "get_prop (vote_data ''m1'' ''down'') ''messageId'' = Inr (JStr ''m1'') \<and>
   get_prop (vote_data ''m1'' ''down'') ''voteType'' = Inr (JStr ''down'') \<and>
   fst (disconnect ''B'' voted_state) =
     voted_state\<lparr>users := [(''A'', \<lparr>username = ''SilentUser1'', joinedAt = 0\<rparr>)]\<rparr> \<and>
   vote_message ''B'' (vote_data ''m1'' ''down'') (fst (disconnect ''B'' voted_state)) =
     Inr (fst (disconnect ''B'' voted_state), [Io_emit (Message_updated ''m1'' 1 [''B''])]) \<and>
   fst (disconnect ''A'' voted_state) =
     voted_state\<lparr>users := [(''B'', \<lparr>username = ''GhostGuest2'', joinedAt = 1\<rparr>)]\<rparr> \<and>
   vote_message ''A'' (vote_data ''m1'' ''down'') (fst (disconnect ''A'' voted_state)) =
     Inr ((fst (disconnect ''A'' voted_state))\<lparr>messages := [tally_msg]\<rparr>,
          [Io_emit (Message_updated ''m1'' 0 [''B'', ''A''])])"
proof -
  have g: "get_prop (vote_data ''m1'' ''down'') ''messageId'' = Inr (JStr ''m1'')"
    "get_prop (vote_data ''m1'' ''down'') ''voteType'' = Inr (JStr ''down'')"
    by (simp_all add: vote_data_def)
  have m: "messages voted_state = [hello_msg]"
    by (simp add: voted_state_def)
  have h: "id_msg hello_msg = ''m1''" "votes hello_msg = 1" "voters hello_msg = [''B'']"
    by (simp_all add: hello_msg_def)
  have d: "fst (disconnect ''B'' voted_state) =
     voted_state\<lparr>users := [(''A'', \<lparr>username = ''SilentUser1'', joinedAt = 0\<rparr>)]\<rparr>"
    "fst (disconnect ''A'' voted_state) =
     voted_state\<lparr>users := [(''B'', \<lparr>username = ''GhostGuest2'', joinedAt = 1\<rparr>)]\<rparr>"
    by (simp_all add: disconnect_def Let_def voted_state_def)
  have b: "vote_message ''B'' (vote_data ''m1'' ''down'') (fst (disconnect ''B'' voted_state)) =
     Inr (fst (disconnect ''B'' voted_state), [Io_emit (Message_updated ''m1'' 1 [''B''])])"
    using disconnect_frame[of "''B''" voted_state "''B''" "vote_data ''m1'' ''down''"
        "JStr ''m1''" "JStr ''down''", THEN conjunct2, THEN conjunct2, THEN conjunct2] g
    by (simp add: m h strict_eq_str_def)
  have a: "vote_message ''A'' (vote_data ''m1'' ''down'') (fst (disconnect ''A'' voted_state)) =
     Inr ((fst (disconnect ''A'' voted_state))\<lparr>messages := [tally_msg]\<rparr>,
          [Io_emit (Message_updated ''m1'' 0 [''B'', ''A''])])"
    using disconnect_frame[of "''A''" voted_state "''A''" "vote_data ''m1'' ''down''"
        "JStr ''m1''" "JStr ''down''", THEN conjunct2, THEN conjunct2, THEN conjunct2] g
    by (simp add: m h strict_eq_str_def tally_msg_def)
  from g d(1) b d(2) a show ?thesis by (intro conjI)
qed

subsection \<open>A vote on the message just sent\<close>

text \<open>
  After a registered session has sent a message under a fresh uuid, a first up or down
  vote on it by any \<open>voter\<close> is counted: the score becomes 1 or -1 and the voters become
  that voter alone.
\<close>

lemma self_vote_immediate:
  assumes "map_of (users s) author = Some u"
    and "get_prop data ''text'' = Inr tx"
    and "uuid \<notin> id_msg ` set (messages s)"
    and "send_message author data uuid now s = Inr (s1, out1)"
    and "get_prop vdata ''messageId'' = Inr (JStr uuid)"
    and "get_prop vdata ''voteType'' = Inr (JStr dir)"
    and "dir = ''up'' \<or> dir = ''down''"
  shows "vote_message voter vdata s1 =
           Inr (s1\<lparr>messages := butlast (messages s1) @
                    [\<lparr>id_msg = uuid, text_msg = tx, username_msg = username u,
                      timestamp = now, votes = (if dir = ''up'' then 1 else - 1),
                      voters = [voter]\<rparr>]\<rparr>,
                [Io_emit (Message_updated uuid (if dir = ''up'' then 1 else - 1) [voter])])"
proof -
  define new where "new = \<lparr>id_msg = uuid, text_msg = tx, username_msg = username u,
                            timestamp = now, votes = 0, voters = []\<rparr>"
  define old where "old = drop (length (messages s) - 99) (messages s)"
  from assms(4) send_message_registered_snoc[OF assms(1,2), of uuid now]
  have s1: "messages s1 = old @ [new]"
    by (auto simp: new_def old_def)
  have "set old \<subseteq> set (messages s)"
    unfolding old_def by (rule set_drop_subset)
  with assms(3) have no: "\<forall>m\<in>set old. \<not> strict_eq_str (JStr uuid) (id_msg m)"
    by (auto simp: strict_eq_str_def)
  have yes: "strict_eq_str (JStr uuid) (id_msg new)"
    by (simp add: strict_eq_str_def new_def)
  have f: "find (\<lambda>m. strict_eq_str (JStr uuid) (id_msg m)) (messages s1) = Some new"
    unfolding s1 using no yes by (rule find_snoc_last)
  have a: "assign_first (\<lambda>m. strict_eq_str (JStr uuid) (id_msg m)) m' (messages s1) = old @ [m']"
    for m'
    unfolding s1 using no yes by (rule assign_first_snoc_last)
  have "JStr ''up'' \<noteq> JStr ''down''" by simp
  with assms(7) show ?thesis
    unfolding vote_message_found[OF assms(5,6) f] a
    by (auto simp: s1 new_def)
qed

subsection \<open>The registry along a run\<close>

lemma send_message_keeps_users:
  assumes "send_message a d u n s = Inr (s', out)"
  shows "users s' = users s"
  using assms
  by (auto simp: send_message_def Let_def split: sum.splits option.splits if_splits)

lemma handle_users:
  assumes "handle e s = Inr (s', out)"
  shows "distinct (map fst (users s)) \<longrightarrow> distinct (map fst (users s'))"
    and "fst ` set (users s') =
           (fst ` set (users s) - {a. Disconnect a \<in> set [e]}) \<union> set (open_sessions [e])"
proof -
  show "distinct (map fst (users s)) \<longrightarrow> distinct (map fst (users s'))"
    using assms
    by (cases e)
      (auto simp: connection_def disconnect_def Let_def distinct_update distinct_delete
        dest: send_message_keeps_users vote_message_keeps_users)
  show "fst ` set (users s') =
           (fst ` set (users s) - {a. Disconnect a \<in> set [e]}) \<union> set (open_sessions [e])"
  proof (cases e)
    case (Connection a n t)
    with assms have "users s' = AList.update a \<lparr>username = n, joinedAt = t\<rparr> (users s)"
      by (auto simp: connection_def Let_def)
    then have "fst ` set (users s') = {a} \<union> fst ` set (users s)"
      by (simp only: dom_update)
    with Connection show ?thesis by auto
  next
    case (Send_message a d u n)
    with assms have "users s' = users s" by (auto dest: send_message_keeps_users)
    with Send_message show ?thesis by auto
  next
    case (Vote_message v d)
    with assms have "users s' = users s" by (auto dest: vote_message_keeps_users)
    with Vote_message show ?thesis by auto
  next
    case (Disconnect a)
    with assms have "users s' = AList.delete a (users s)"
      by (auto simp: disconnect_def Let_def)
    then have "set (map fst (users s')) = set (removeAll a (map fst (users s)))"
      by (simp only: delete_keys)
    then have "fst ` set (users s') = fst ` set (users s) - {a}"
      by simp
    with Disconnect show ?thesis by auto
  qed
qed

lemma open_sessions_Cons:
  "set (open_sessions (e # es)) = (set (open_sessions [e]) - {a. Disconnect a \<in> set es}) \<union> set (open_sessions es)"
  by (cases e) auto

lemma exec_users:
  assumes "exec s es = Inr (s', out)" and "distinct (map fst (users s))"
  shows "distinct (map fst (users s')) \<and>
         fst ` set (users s') =
           (fst ` set (users s) - {a. Disconnect a \<in> set es}) \<union> set (open_sessions es)"
  using assms
proof (induction es arbitrary: s out)
  case Nil
  then show ?case by simp
next
  case (Cons e es)
  from Cons.prems(1) obtain s1 o1 o2 where h: "handle e s = Inr (s1, o1)"
    and r: "exec s1 es = Inr (s', o2)"
    by (auto split: sum.splits prod.splits)
  from handle_users(1)[OF h] Cons.prems(2) have d1: "distinct (map fst (users s1))" by simp
  note k1 = handle_users(2)[OF h]
  from Cons.IH[OF r d1] have d': "distinct (map fst (users s'))"
    and k': "fst ` set (users s') =
       (fst ` set (users s1) - {a. Disconnect a \<in> set es}) \<union> set (open_sessions es)"
    by simp_all
  have "fst ` set (users s') =
       (fst ` set (users s) - {a. Disconnect a \<in> set (e # es)}) \<union> set (open_sessions (e # es))"
    unfolding k' k1 open_sessions_Cons[of e es] by auto
  with d' show ?case by simp
qed

lemma open_sessions_subset: "set (open_sessions es) \<subseteq> set (socket_ids es)"
  by (induction es rule: open_sessions.induct) auto

lemma distinct_open_sessions: "distinct (socket_ids es) \<Longrightarrow> distinct (open_sessions es)"
  using open_sessions_subset by (induction es rule: open_sessions.induct) auto

lemma exec_user_count:
  assumes "exec init_state evs = Inr (s, out)" and "distinct (socket_ids evs)"
  shows "length (users s) = length (open_sessions evs)"
proof -
  have "distinct (map fst (users init_state))" by (simp add: init_state_def)
  from exec_users[OF assms(1) this]
  have d: "distinct (map fst (users s))"
    and k: "fst ` set (users s) = set (open_sessions evs)"
    by (simp_all add: init_state_def)
  have "length (users s) = length (map fst (users s))" by simp
  also have "\<dots> = card (set (map fst (users s)))"
    using d by (simp only: distinct_card)
  also have "\<dots> = card (set (open_sessions evs))"
    using k by simp
  also have "\<dots> = length (open_sessions evs)"
    using distinct_open_sessions[OF assms(2)] by (rule distinct_card)
  finally show ?thesis .
qed

subsection \<open>The session count\<close>

text \<open>
  Claim C9. When no socket id is issued twice, the size of \<^verbatim>\<open>users\<close> after a run from
  the initial state is the number of connections of the run that no later disconnect
  of the same socket id has matched. Disconnecting a socket id that has no entry in
  \<^verbatim>\<open>users\<close> returns the state as it was and broadcasts the unchanged count.
\<close>

theorem session_count:
  "(exec init_state evs = Inr (s, out) \<and> distinct (socket_ids evs) \<longrightarrow>
      length (users s) = length (open_sessions evs)) \<and>
   (socket_id \<notin> fst ` set (users t) \<longrightarrow>
      disconnect socket_id t = (t, [Io_emit (User_count (length (users t)))]))"
proof (intro conjI impI)
  assume "exec init_state evs = Inr (s, out) \<and> distinct (socket_ids evs)"
  then show "length (users s) = length (open_sessions evs)"
    by (simp add: exec_user_count)
next
  assume "socket_id \<notin> fst ` set (users t)"
  then show "disconnect socket_id t = (t, [Io_emit (User_count (length (users t)))])"
    by (simp add: disconnect_def Let_def)
qed

lemma churn_run_exec: "exec init_state churn_run = Inr (churn_state, churn_out)"
  by (simp add: churn_run_def churn_state_def churn_out_def init_state_def handler_defs)

theorem session_count_witness:
  "exec init_state churn_run = Inr (churn_state, churn_out) \<and>
   distinct (socket_ids churn_run) \<and>
   length (users churn_state) = 2 \<and> open_sessions churn_run = [''B'', ''C''] \<and>
   ''Z'' \<notin> fst ` set (users churn_state) \<and>
   disconnect ''Z'' churn_state = (churn_state, [Io_emit (User_count 2)])"
proof -
  have d: "distinct (socket_ids churn_run)" by (simp add: churn_run_def)
  have z: "''Z'' \<notin> fst ` set (users churn_state)" by (simp add: churn_state_def)
  have o: "open_sessions churn_run = [''B'', ''C'']" by (simp add: churn_run_def)
  have l: "length (users churn_state) = 2" by (simp add: churn_state_def)
  from session_count[of churn_run churn_state churn_out "''Z''" churn_state]
    churn_run_exec d z o l
  show ?thesis by simp
qed

subsection \<open>The votes accepted along a run\<close>

lemma votes_absent: "x \<notin> fst ` set l \<Longrightarrow> up_votes x l = 0 \<and> down_votes x l = 0"
  by (induction l) (auto simp: up_votes_def down_votes_def)

lemma up_votes_snoc:
  "up_votes x (l @ [(y, v, b)]) = up_votes x l + (if y = x \<and> b then 1 else 0)"
  by (simp add: up_votes_def)

lemma down_votes_snoc:
  "down_votes x (l @ [(y, v, b)]) = down_votes x l + (if y = x \<and> \<not> b then 1 else 0)"
  by (simp add: down_votes_def)

lemma set_assign_first_subset: "set (assign_first p m' ms) \<subseteq> insert m' (set ms)"
  by (induction ms) auto

lemma assign_first_distinct_cases:
  assumes "distinct (map f ms)" and "\<And>m. p m \<longleftrightarrow> f m = x"
    and "m2 \<in> set (assign_first p m' ms)"
  shows "m2 = m' \<or> (m2 \<in> set ms \<and> f m2 \<noteq> x)"
  using assms(1,3)
proof (induction ms)
  case Nil
  then show ?case by simp
next
  case (Cons m ms)
  show ?case
  proof (cases "p m")
    case True
    with Cons.prems(2) have "m2 = m' \<or> m2 \<in> set ms" by auto
    moreover have "f m2 \<noteq> x" if "m2 \<in> set ms"
    proof -
      from that have "f m2 \<in> f ` set ms" by (rule imageI)
      moreover from Cons.prems(1) have "f m \<notin> f ` set ms" by simp
      moreover from True assms(2) have "f m = x" by simp
      ultimately show ?thesis by auto
    qed
    ultimately show ?thesis by auto
  next
    case False
    with assms(2) have "f m \<noteq> x" by simp
    moreover from False Cons.prems(2) have "m2 = m \<or> m2 \<in> set (assign_first p m' ms)" by auto
    moreover from Cons.prems(1) have "distinct (map f ms)" by simp
    ultimately show ?thesis using Cons.IH by auto
  qed
qed

lemma accepted_vote_SomeD:
  assumes "accepted_vote s v d = Some r"
  obtains mid vt m where "get_prop d ''messageId'' = Inr mid"
    and "get_prop d ''voteType'' = Inr vt"
    and "find (\<lambda>m. strict_eq_str mid (id_msg m)) (messages s) = Some m"
    and "mid = JStr (id_msg m)"
    and "v \<notin> set (voters m)" and "vt = JStr ''up'' \<or> vt = JStr ''down''"
    and "r = (id_msg m, v, vt = JStr ''up'')"
proof -
  from assms obtain mid vt where a: "get_prop d ''messageId'' = Inr mid"
    and b: "get_prop d ''voteType'' = Inr vt"
    by (auto simp: accepted_vote_def split: sum.splits)
  with assms obtain m where c: "find (\<lambda>m. strict_eq_str mid (id_msg m)) (messages s) = Some m"
    by (auto simp: accepted_vote_def split: option.splits)
  from c have e: "mid = JStr (id_msg m)"
    by (auto simp: find_Some_iff strict_eq_str_def)
  from assms a b c have "v \<notin> set (voters m)" and "vt = JStr ''up'' \<or> vt = JStr ''down''"
    and "r = (id_msg m, v, vt = JStr ''up'')"
    by (auto simp: accepted_vote_def split: if_splits)
  with a b c e show ?thesis by (rule that)
qed

lemma accepted_vote_None_found:
  assumes "get_prop d ''messageId'' = Inr mid" and "get_prop d ''voteType'' = Inr vt"
    and "find (\<lambda>m. strict_eq_str mid (id_msg m)) (messages s) = Some m"
    and "accepted_vote s v d = None"
  shows "\<not> ((vt = JStr ''up'' \<or> vt = JStr ''down'') \<and> v \<notin> set (voters m))"
  using assms by (auto simp: accepted_vote_def split: if_splits)

lemma vote_message_unaccepted:
  assumes "vote_message v d s = Inr (s', out)" and "accepted_vote s v d = None"
  shows "s' = s"
proof -
  from assms(1) obtain mid vt where a: "get_prop d ''messageId'' = Inr mid"
    and b: "get_prop d ''voteType'' = Inr vt"
    by (auto simp: vote_message_def split: sum.splits)
  show ?thesis
  proof (cases "find (\<lambda>m. strict_eq_str mid (id_msg m)) (messages s)")
    case None
    from assms(1) vote_message_not_found[OF a None, of v] show ?thesis by simp
  next
    case (Some m)
    from accepted_vote_None_found[OF a b Some assms(2)] assms(1)
    show ?thesis unfolding vote_message_found[OF a b Some] by (auto split: if_splits)
  qed
qed

lemma vote_message_accepted:
  assumes "accepted_vote s v d = Some r"
  obtains m b where "r = (id_msg m, v, b)"
    and "find (\<lambda>m'. strict_eq_str (JStr (id_msg m)) (id_msg m')) (messages s) = Some m"
    and "v \<notin> set (voters m)"
    and "vote_message v d s =
      Inr (s\<lparr>messages := assign_first (\<lambda>m'. strict_eq_str (JStr (id_msg m)) (id_msg m'))
                 (m\<lparr>votes := votes m + (if b then 1 else - 1), voters := voters m @ [v]\<rparr>)
                 (messages s)\<rparr>,
           [Io_emit (Message_updated (id_msg m) (votes m + (if b then 1 else - 1))
              (voters m @ [v]))])"
proof -
  from assms obtain mid vt m where a: "get_prop d ''messageId'' = Inr mid"
    and b: "get_prop d ''voteType'' = Inr vt"
    and c: "find (\<lambda>m. strict_eq_str mid (id_msg m)) (messages s) = Some m"
    and e: "mid = JStr (id_msg m)"
    and f: "v \<notin> set (voters m)" and g: "vt = JStr ''up'' \<or> vt = JStr ''down''"
    and h: "r = (id_msg m, v, vt = JStr ''up'')"
    by (rule accepted_vote_SomeD)
  show ?thesis
  proof (rule that[of m "vt = JStr ''up''"])
    show "r = (id_msg m, v, vt = JStr ''up'')" by (rule h)
    show "find (\<lambda>m'. strict_eq_str (JStr (id_msg m)) (id_msg m')) (messages s) = Some m"
      using c e by simp
    show "v \<notin> set (voters m)" by (rule f)
    show "vote_message v d s =
      Inr (s\<lparr>messages := assign_first (\<lambda>m'. strict_eq_str (JStr (id_msg m)) (id_msg m'))
                 (m\<lparr>votes := votes m + (if vt = JStr ''up'' then 1 else - 1), voters := voters m @ [v]\<rparr>)
                 (messages s)\<rparr>,
           [Io_emit (Message_updated (id_msg m) (votes m + (if vt = JStr ''up'' then 1 else - 1))
              (voters m @ [v]))])"
      unfolding vote_message_found[OF a b c] using f g e by simp
  qed
qed

lemma ledger_inv_mono: "ledger_inv s l g \<Longrightarrow> g \<subseteq> g' \<Longrightarrow> ledger_inv s l g'"
  unfolding ledger_inv_def by blast

lemma ledger_inv_same_messages:
  "ledger_inv s l g \<Longrightarrow> messages s' = messages s \<Longrightarrow> ledger_inv s' l g"
  unfolding ledger_inv_def by simp

lemma ledger_inv_send:
  assumes inv: "ledger_inv s l g" and u: "u \<notin> g"
    and ms: "messages s' = drop k (messages s @ [new])"
    and new: "id_msg new = u" "votes new = 0" "voters new = []"
  shows "ledger_inv s' l (insert u g)"
proof -
  from inv have d: "distinct (map id_msg (messages s))"
    and sub: "id_msg ` set (messages s) \<subseteq> g" and lsub: "fst ` set l \<subseteq> g"
    and each: "\<And>m. m \<in> set (messages s) \<Longrightarrow>
        distinct (voters m) \<and>
        votes m = int (up_votes (id_msg m) l) - int (down_votes (id_msg m) l) \<and>
        length (voters m) = up_votes (id_msg m) l + down_votes (id_msg m) l"
    unfolding ledger_inv_def by auto
  from sub u have "u \<notin> id_msg ` set (messages s)" by auto
  with d new(1) have "distinct (map id_msg (messages s @ [new]))" by simp
  then have "distinct (drop k (map id_msg (messages s @ [new])))" by (rule distinct_drop)
  then have d': "distinct (map id_msg (messages s'))" unfolding ms by (simp only: drop_map)
  have in': "set (messages s') \<subseteq> insert new (set (messages s))"
    unfolding ms using set_drop_subset[of k "messages s @ [new]"] by auto
  with sub new(1) have sub': "id_msg ` set (messages s') \<subseteq> insert u g" by auto
  from lsub u have "u \<notin> fst ` set l" by auto
  then have zero: "up_votes u l = 0 \<and> down_votes u l = 0" by (rule votes_absent)
  have each': "distinct (voters m) \<and>
        votes m = int (up_votes (id_msg m) l) - int (down_votes (id_msg m) l) \<and>
        length (voters m) = up_votes (id_msg m) l + down_votes (id_msg m) l"
    if "m \<in> set (messages s')" for m
  proof -
    from that in' have "m = new \<or> m \<in> set (messages s)" by auto
    then show ?thesis
    proof
      assume "m = new"
      with new zero show ?thesis by simp
    next
      assume "m \<in> set (messages s)"
      then show ?thesis by (rule each)
    qed
  qed
  from d' sub' lsub each' show ?thesis unfolding ledger_inv_def by auto
qed

lemma ledger_inv_vote:
  assumes inv: "ledger_inv s l g"
    and f: "find (\<lambda>m'. strict_eq_str (JStr (id_msg m)) (id_msg m')) (messages s) = Some m"
    and v: "v \<notin> set (voters m)"
    and ms: "messages s' = assign_first (\<lambda>m'. strict_eq_str (JStr (id_msg m)) (id_msg m'))
                 (m\<lparr>votes := votes m + (if b then 1 else - 1), voters := voters m @ [v]\<rparr>)
                 (messages s)"
  shows "ledger_inv s' (l @ [(id_msg m, v, b)]) g"
proof -
  define m' where "m' = m\<lparr>votes := votes m + (if b then 1 else - 1), voters := voters m @ [v]\<rparr>"
  define p :: "message \<Rightarrow> bool"
    where "p = (\<lambda>m'. strict_eq_str (JStr (id_msg m)) (id_msg m'))"
  have p: "p a \<longleftrightarrow> id_msg a = id_msg m" for a
    by (auto simp: p_def strict_eq_str_def)
  from inv have d: "distinct (map id_msg (messages s))"
    and sub: "id_msg ` set (messages s) \<subseteq> g" and lsub: "fst ` set l \<subseteq> g"
    and each: "\<And>m. m \<in> set (messages s) \<Longrightarrow>
        distinct (voters m) \<and>
        votes m = int (up_votes (id_msg m) l) - int (down_votes (id_msg m) l) \<and>
        length (voters m) = up_votes (id_msg m) l + down_votes (id_msg m) l"
    unfolding ledger_inv_def by auto
  from f have min: "m \<in> set (messages s)" by (auto simp: find_Some_iff in_set_conv_nth)
  have ms': "messages s' = assign_first p m' (messages s)"
    unfolding ms p_def m'_def ..
  have idm': "id_msg m' = id_msg m" by (simp add: m'_def)
  from f have "find p (messages s) = Some m" by (simp add: p_def)
  then have "map id_msg (messages s') = map id_msg (messages s)"
    unfolding ms' using idm' by (rule map_assign_first)
  with d sub have d': "distinct (map id_msg (messages s'))"
    and sub': "id_msg ` set (messages s') \<subseteq> g"
    by (simp_all del: set_map add: set_map[symmetric])
  from min sub lsub have lsub': "fst ` set (l @ [(id_msg m, v, b)]) \<subseteq> g" by auto
  have each': "distinct (voters a) \<and>
        votes a = int (up_votes (id_msg a) (l @ [(id_msg m, v, b)])) -
                  int (down_votes (id_msg a) (l @ [(id_msg m, v, b)])) \<and>
        length (voters a) = up_votes (id_msg a) (l @ [(id_msg m, v, b)]) +
                            down_votes (id_msg a) (l @ [(id_msg m, v, b)])"
    if "a \<in> set (messages s')" for a
  proof -
    from that have "a \<in> set (assign_first p m' (messages s))" by (simp add: ms')
    with d p have "a = m' \<or> (a \<in> set (messages s) \<and> id_msg a \<noteq> id_msg m)"
      by (rule assign_first_distinct_cases)
    then show ?thesis
    proof
      assume "a = m'"
      with each[OF min] v show ?thesis
        by (simp add: m'_def up_votes_snoc down_votes_snoc)
    next
      assume "a \<in> set (messages s) \<and> id_msg a \<noteq> id_msg m"
      then have "a \<in> set (messages s)" and ne: "id_msg m \<noteq> id_msg a" by auto
      from each[OF this(1)] ne show ?thesis
        by (simp add: up_votes_snoc down_votes_snoc)
    qed
  qed
  from d' sub' lsub' each' show ?thesis unfolding ledger_inv_def by blast
qed

lemma ledger_inv_step:
  assumes inv: "ledger_inv s l g" and h: "handle e s = Inr (s', out)"
    and fresh: "set (uuids [e]) \<inter> g = {}"
  shows "ledger_inv s' (l @ ledger_step s e) (g \<union> set (uuids [e]))"
proof (cases e)
  case (Connection a n t)
  with h have "messages s' = messages s" by (auto simp: connection_def Let_def)
  with inv Connection show ?thesis by (simp add: ledger_inv_same_messages)
next
  case (Disconnect a)
  with h have "messages s' = messages s" by (auto simp: disconnect_def Let_def)
  with inv Disconnect show ?thesis by (simp add: ledger_inv_same_messages)
next
  case (Send_message a d u n)
  with h have "send_message a d u n s = Inr (s', out)" by simp
  from send_message_cases[OF this] have "ledger_inv s' l (insert u g)"
  proof
    assume "s' = s"
    with inv show ?thesis by (auto intro: ledger_inv_mono)
  next
    assume "\<exists>k new. messages s' = drop k (messages s @ [new]) \<and> id_msg new = u \<and>
                  votes new = 0 \<and> voters new = []"
    then obtain k new where "messages s' = drop k (messages s @ [new])"
      and "id_msg new = u" "votes new = 0" "voters new = []" by blast
    moreover from fresh Send_message have "u \<notin> g" by simp
    ultimately show ?thesis using inv by (intro ledger_inv_send)
  qed
  with Send_message show ?thesis by simp
next
  case (Vote_message v d)
  with h have vm: "vote_message v d s = Inr (s', out)" by simp
  show ?thesis
  proof (cases "accepted_vote s v d")
    case None
    with vm have "s' = s" by (rule vote_message_unaccepted)
    with inv None Vote_message show ?thesis by simp
  next
    case (Some r)
    then obtain m b where r: "r = (id_msg m, v, b)"
      and f: "find (\<lambda>m'. strict_eq_str (JStr (id_msg m)) (id_msg m')) (messages s) = Some m"
      and nv: "v \<notin> set (voters m)"
      and res: "vote_message v d s =
        Inr (s\<lparr>messages := assign_first (\<lambda>m'. strict_eq_str (JStr (id_msg m)) (id_msg m'))
                 (m\<lparr>votes := votes m + (if b then 1 else - 1), voters := voters m @ [v]\<rparr>)
                 (messages s)\<rparr>,
           [Io_emit (Message_updated (id_msg m) (votes m + (if b then 1 else - 1))
              (voters m @ [v]))])"
      by (rule vote_message_accepted)
    from vm res have "messages s' = assign_first (\<lambda>m'. strict_eq_str (JStr (id_msg m)) (id_msg m'))
                 (m\<lparr>votes := votes m + (if b then 1 else - 1), voters := voters m @ [v]\<rparr>)
                 (messages s)" by auto
    with inv f nv have "ledger_inv s' (l @ [(id_msg m, v, b)]) g" by (rule ledger_inv_vote)
    with Some r Vote_message show ?thesis by simp
  qed
qed

lemma ledger_inv_exec:
  assumes "ledger_inv s l g" and "exec s es = Inr (s', out)"
    and "distinct (uuids es)" and "set (uuids es) \<inter> g = {}"
  shows "ledger_inv s' (l @ accepted_votes s es) (g \<union> set (uuids es))"
  using assms
proof (induction es arbitrary: s l g out)
  case Nil
  then show ?case by simp
next
  case (Cons e es)
  from Cons.prems(2) obtain s1 o1 o2 where h: "handle e s = Inr (s1, o1)"
    and r: "exec s1 es = Inr (s', o2)"
    by (auto split: sum.splits prod.splits)
  have u: "uuids (e # es) = uuids [e] @ uuids es"
    using uuids_append[of "[e]" es] by simp
  from Cons.prems(3,4) have f1: "set (uuids [e]) \<inter> g = {}" and d2: "distinct (uuids es)"
    and f2: "set (uuids es) \<inter> (g \<union> set (uuids [e])) = {}"
    unfolding u by auto
  from ledger_inv_step[OF Cons.prems(1) h f1]
  have "ledger_inv s1 (l @ ledger_step s e) (g \<union> set (uuids [e]))" .
  from Cons.IH[OF this r d2 f2]
  have "ledger_inv s' ((l @ ledger_step s e) @ accepted_votes s1 es)
          ((g \<union> set (uuids [e])) \<union> set (uuids es))" .
  moreover have "accepted_votes s (e # es) = ledger_step s e @ accepted_votes s1 es"
    using h by simp
  ultimately show ?case unfolding u by (simp add: Un_assoc)
qed

lemma ledger_inv_init: "ledger_inv init_state [] {}"
  by (simp add: ledger_inv_def init_state_def)

lemma ledger_inv_reachable:
  assumes "exec init_state evs = Inr (s, out)" and "distinct (uuids evs)"
  shows "ledger_inv s (accepted_votes init_state evs) (set (uuids evs))"
  using ledger_inv_exec[OF ledger_inv_init assms(1,2)] by simp

subsection \<open>Scores and voters\<close>

text \<open>
  Claim C1. When \<^verbatim>\<open>uuidv4()\<close> never repeats, every message that is in the store after a
  run from the initial state has a score equal to the number of accepted up-votes on its
  id minus the number of accepted down-votes on it, and its voters set has as many
  elements as there are accepted votes on it.
\<close>

theorem score_counts_accepted_votes:
  assumes "exec init_state evs = Inr (s, out)" and "distinct (uuids evs)"
    and "m \<in> set (messages s)"
  shows "votes m = int (up_votes (id_msg m) (accepted_votes init_state evs)) -
                   int (down_votes (id_msg m) (accepted_votes init_state evs)) \<and>
         card (set (voters m)) = up_votes (id_msg m) (accepted_votes init_state evs) +
                                 down_votes (id_msg m) (accepted_votes init_state evs)"
proof -
  from ledger_inv_reachable[OF assms(1,2)] assms(3)
  have "distinct (voters m)"
    and "votes m = int (up_votes (id_msg m) (accepted_votes init_state evs)) -
                   int (down_votes (id_msg m) (accepted_votes init_state evs))"
    and "length (voters m) = up_votes (id_msg m) (accepted_votes init_state evs) +
                                 down_votes (id_msg m) (accepted_votes init_state evs)"
    unfolding ledger_inv_def by auto
  then show ?thesis by (simp add: distinct_card)
qed

lemma tally_run_exec: "exec init_state tally_run = Inr (tally_state, tally_out)"
  by (simp add: tally_run_def tally_state_def tally_msg_def tally_out_def small_run_def
      small_out_def init_state_def voted_state_def hello_msg_def vote_data_def handler_defs)

lemma tally_run_votes:
  "accepted_votes init_state tally_run = [(''m1'', ''B'', True), (''m1'', ''A'', False)]"
  by (simp add: tally_run_def small_run_def init_state_def vote_data_def handler_defs
      accepted_vote_def)

theorem score_counts_accepted_votes_witness:
  "exec init_state tally_run = Inr (tally_state, tally_out) \<and>
   distinct (uuids tally_run) \<and>
   tally_msg \<in> set (messages tally_state) \<and>
   accepted_votes init_state tally_run = [(''m1'', ''B'', True), (''m1'', ''A'', False)] \<and>
   votes tally_msg = int (up_votes (id_msg tally_msg) (accepted_votes init_state tally_run)) -
                     int (down_votes (id_msg tally_msg) (accepted_votes init_state tally_run)) \<and>
   card (set (voters tally_msg)) =
     up_votes (id_msg tally_msg) (accepted_votes init_state tally_run) +
     down_votes (id_msg tally_msg) (accepted_votes init_state tally_run) \<and>
   votes tally_msg = 0 \<and> voters tally_msg = [''B'', ''A''] \<and>
   up_votes ''m1'' [(''m1'', ''B'', True), (''m1'', ''A'', False)] = 1 \<and>
   down_votes ''m1'' [(''m1'', ''B'', True), (''m1'', ''A'', False)] = 1"
proof -
  have d: "distinct (uuids tally_run)"
    by (simp add: tally_run_def small_run_def)
  have m: "tally_msg \<in> set (messages tally_state)"
    by (simp add: tally_state_def)
  have v: "votes tally_msg = 0" "voters tally_msg = [''B'', ''A'']"
    by (simp_all add: tally_msg_def)
  have c: "up_votes ''m1'' [(''m1'', ''B'', True), (''m1'', ''A'', False)] = 1"
    "down_votes ''m1'' [(''m1'', ''B'', True), (''m1'', ''A'', False)] = 1"
    by (simp_all add: up_votes_def down_votes_def)
  from score_counts_accepted_votes[OF tally_run_exec d m] tally_run_exec d m tally_run_votes v c
  show ?thesis by simp
qed

lemma voted_on_step:
  assumes inv: "voted_on s x v" and h: "handle e s = Inr (s', out)"
    and fresh: "x \<notin> set (uuids [e])"
  shows "voted_on s' x v"
proof (cases e)
  case (Connection a n t)
  with h have "messages s' = messages s" by (auto simp: connection_def Let_def)
  with inv show ?thesis by (simp add: voted_on_def)
next
  case (Disconnect a)
  with h have "messages s' = messages s" by (auto simp: disconnect_def Let_def)
  with inv show ?thesis by (simp add: voted_on_def)
next
  case (Send_message a d u n)
  with h have "send_message a d u n s = Inr (s', out)" by simp
  from send_message_cases[OF this] show ?thesis
  proof
    assume "s' = s"
    with inv show ?thesis by simp
  next
    assume "\<exists>k new. messages s' = drop k (messages s @ [new]) \<and> id_msg new = u \<and>
                  votes new = 0 \<and> voters new = []"
    then obtain k new where ms: "messages s' = drop k (messages s @ [new])"
      and i: "id_msg new = u" by blast
    have "set (messages s') \<subseteq> insert new (set (messages s))"
      unfolding ms using set_drop_subset[of k "messages s @ [new]"] by auto
    moreover from fresh Send_message i have "id_msg new \<noteq> x" by auto
    ultimately show ?thesis using inv unfolding voted_on_def by blast
  qed
next
  case (Vote_message w d)
  with h have vm: "vote_message w d s = Inr (s', out)" by simp
  show ?thesis
  proof (cases "accepted_vote s w d")
    case None
    with vm have "s' = s" by (rule vote_message_unaccepted)
    with inv show ?thesis by simp
  next
    case (Some r)
    then obtain m b where
      f: "find (\<lambda>m'. strict_eq_str (JStr (id_msg m)) (id_msg m')) (messages s) = Some m"
      and res: "vote_message w d s =
        Inr (s\<lparr>messages := assign_first (\<lambda>m'. strict_eq_str (JStr (id_msg m)) (id_msg m'))
                 (m\<lparr>votes := votes m + (if b then 1 else - 1), voters := voters m @ [w]\<rparr>)
                 (messages s)\<rparr>,
           [Io_emit (Message_updated (id_msg m) (votes m + (if b then 1 else - 1))
              (voters m @ [w]))])"
      by (rule vote_message_accepted)
    define m' where "m' = m\<lparr>votes := votes m + (if b then 1 else - 1), voters := voters m @ [w]\<rparr>"
    from vm res have "messages s' =
        assign_first (\<lambda>m'. strict_eq_str (JStr (id_msg m)) (id_msg m')) m' (messages s)"
      by (auto simp: m'_def)
    then have sub: "set (messages s') \<subseteq> insert m' (set (messages s))"
      using set_assign_first_subset by metis
    from f have min: "m \<in> set (messages s)" by (auto simp: find_Some_iff in_set_conv_nth)
    have "v \<in> set (voters m')" if "id_msg m' = x"
    proof -
      from that have "id_msg m = x" by (simp add: m'_def)
      with inv min have "v \<in> set (voters m)" unfolding voted_on_def by blast
      then show ?thesis by (simp add: m'_def)
    qed
    with sub inv show ?thesis unfolding voted_on_def by blast
  qed
qed

lemma voted_on_exec:
  assumes "voted_on s x v" and "exec s es = Inr (s', out)" and "x \<notin> set (uuids es)"
  shows "voted_on s' x v"
  using assms
proof (induction es arbitrary: s out)
  case Nil
  then show ?case by simp
next
  case (Cons e es)
  from Cons.prems(2) obtain s1 o1 o2 where h: "handle e s = Inr (s1, o1)"
    and r: "exec s1 es = Inr (s', o2)"
    by (auto split: sum.splits prod.splits)
  from Cons.prems(3) have f1: "x \<notin> set (uuids [e])" and f2: "x \<notin> set (uuids es)"
    unfolding uuids_Cons[of e es] by auto
  from voted_on_step[OF Cons.prems(1) h f1] have "voted_on s1 x v" .
  from Cons.IH[OF this r f2] show ?case .
qed

subsection \<open>One vote per voter and message\<close>

text \<open>
  Claim C2. Take a run from the initial state in which \<^verbatim>\<open>uuidv4()\<close> never repeats and in
  which a vote by \<open>v\<close> on message \<open>x\<close> is accepted. After any further events, a vote by
  \<open>v\<close> that names \<open>x\<close> again, with whatever direction, returns the state as it was: no
  score and no voters set changes.
\<close>

theorem second_vote_noop:
  assumes e1: "exec init_state evs1 = Inr (s1, o1)"
    and acc: "accepted_vote s1 v d = Some (x, v, b)"
    and e2: "exec s1 (Vote_message v d # evs2) = Inr (s3, o3)"
    and dist: "distinct (uuids (evs1 @ evs2))"
    and g1: "get_prop d' ''messageId'' = Inr (JStr x)"
    and g2: "get_prop d' ''voteType'' = Inr vt"
  shows "vote_message v d' s3 =
           Inr (s3, case find (\<lambda>m. strict_eq_str (JStr x) (id_msg m)) (messages s3) of
                      None \<Rightarrow> []
                    | Some m \<Rightarrow> [Io_emit (Message_updated (id_msg m) (votes m) (voters m))])"
proof -
  from dist have d1: "distinct (uuids evs1)" and dis: "set (uuids evs1) \<inter> set (uuids evs2) = {}"
    unfolding uuids_append by auto
  from ledger_inv_reachable[OF e1 d1]
  have ds: "distinct (map id_msg (messages s1))"
    and sub: "id_msg ` set (messages s1) \<subseteq> set (uuids evs1)"
    unfolding ledger_inv_def by auto
  from acc obtain m b' where r: "(x, v, b) = (id_msg m, v, b')"
    and f: "find (\<lambda>m'. strict_eq_str (JStr (id_msg m)) (id_msg m')) (messages s1) = Some m"
    and res: "vote_message v d s1 =
        Inr (s1\<lparr>messages := assign_first (\<lambda>m'. strict_eq_str (JStr (id_msg m)) (id_msg m'))
                 (m\<lparr>votes := votes m + (if b' then 1 else - 1), voters := voters m @ [v]\<rparr>)
                 (messages s1)\<rparr>,
           [Io_emit (Message_updated (id_msg m) (votes m + (if b' then 1 else - 1))
              (voters m @ [v]))])"
    by (rule vote_message_accepted)
  from r have x: "id_msg m = x" by simp
  define m' where "m' = m\<lparr>votes := votes m + (if b' then 1 else - 1), voters := voters m @ [v]\<rparr>"
  define p :: "message \<Rightarrow> bool"
    where "p = (\<lambda>m'. strict_eq_str (JStr (id_msg m)) (id_msg m'))"
  have p: "p a \<longleftrightarrow> id_msg a = x" for a
    by (auto simp: p_def strict_eq_str_def x)
  define s2 where "s2 = s1\<lparr>messages := assign_first p m' (messages s1)\<rparr>"
  from res have h: "handle (Vote_message v d) s1 =
      Inr (s2, [Io_emit (Message_updated (id_msg m) (votes m + (if b' then 1 else - 1))
              (voters m @ [v]))])"
    by (simp add: s2_def p_def m'_def)
  with e2 obtain o2 where r2: "exec s2 evs2 = Inr (s3, o2)"
    by (auto split: sum.splits prod.splits)
  have "voted_on s2 x v"
    unfolding voted_on_def
  proof (intro ballI impI)
    fix a assume "a \<in> set (messages s2)" and ax: "id_msg a = x"
    then have "a \<in> set (assign_first p m' (messages s1))" by (simp add: s2_def)
    with ds p have "a = m' \<or> (a \<in> set (messages s1) \<and> id_msg a \<noteq> x)"
      by (rule assign_first_distinct_cases)
    with ax have "a = m'" by simp
    then show "v \<in> set (voters a)" by (simp add: m'_def)
  qed
  moreover have "x \<notin> set (uuids evs2)"
  proof -
    from f have "m \<in> set (messages s1)" by (auto simp: find_Some_iff in_set_conv_nth)
    with x sub have "x \<in> set (uuids evs1)" by auto
    with dis show ?thesis by auto
  qed
  ultimately have v3: "voted_on s3 x v" using r2 by (intro voted_on_exec[of s2 x v evs2 s3 o2])
  show ?thesis
  proof (cases "find (\<lambda>m. strict_eq_str (JStr x) (id_msg m)) (messages s3)")
    case None
    with vote_message_not_found[OF g1 None] show ?thesis by simp
  next
    case (Some a)
    then have "a \<in> set (messages s3)" and "id_msg a = x"
      by (auto simp: find_Some_iff in_set_conv_nth strict_eq_str_def)
    with v3 have "v \<in> set (voters a)" unfolding voted_on_def by blast
    with Some show ?thesis unfolding vote_message_found[OF g1 g2 Some] by simp
  qed
qed

lemma sent_run_exec: "exec init_state sent_run = Inr (sent_state, sent_out)"
  by (simp add: sent_run_def sent_state_def sent_out_def init_state_def voted_state_def
      hello_msg_def handler_defs)

theorem second_vote_noop_witness:
  "exec init_state sent_run = Inr (sent_state, sent_out) \<and>
   accepted_vote sent_state ''B'' (vote_data ''m1'' ''up'') = Some (''m1'', ''B'', True) \<and>
   exec sent_state [Vote_message ''B'' (vote_data ''m1'' ''up''),
                    Vote_message ''A'' (vote_data ''m1'' ''down'')] =
     Inr (tally_state, [Io_emit (Message_updated ''m1'' 1 [''B'']),
                        Io_emit (Message_updated ''m1'' 0 [''B'', ''A''])]) \<and>
   distinct (uuids (sent_run @ [Vote_message ''A'' (vote_data ''m1'' ''down'')])) \<and>
   get_prop (vote_data ''m1'' ''down'') ''messageId'' = Inr (JStr ''m1'') \<and>
   get_prop (vote_data ''m1'' ''down'') ''voteType'' = Inr (JStr ''down'') \<and>
   vote_message ''B'' (vote_data ''m1'' ''down'') tally_state =
     Inr (tally_state, [Io_emit (Message_updated ''m1'' 0 [''B'', ''A''])])"
proof -
  have a: "accepted_vote sent_state ''B'' (vote_data ''m1'' ''up'') = Some (''m1'', ''B'', True)"
    by (simp add: accepted_vote_def sent_state_def hello_msg_def vote_data_def strict_eq_str_def)
  have e: "exec sent_state [Vote_message ''B'' (vote_data ''m1'' ''up''),
                    Vote_message ''A'' (vote_data ''m1'' ''down'')] =
     Inr (tally_state, [Io_emit (Message_updated ''m1'' 1 [''B'']),
                        Io_emit (Message_updated ''m1'' 0 [''B'', ''A''])])"
    by (simp add: sent_state_def tally_state_def tally_msg_def voted_state_def hello_msg_def
        vote_data_def handler_defs)
  have d: "distinct (uuids (sent_run @ [Vote_message ''A'' (vote_data ''m1'' ''down'')]))"
    by (simp add: sent_run_def)
  have g: "get_prop (vote_data ''m1'' ''down'') ''messageId'' = Inr (JStr ''m1'')"
    "get_prop (vote_data ''m1'' ''down'') ''voteType'' = Inr (JStr ''down'')"
    by (simp_all add: vote_data_def)
  have f: "find (\<lambda>m. strict_eq_str (JStr ''m1'') (id_msg m)) (messages tally_state) =
             Some tally_msg"
    by (simp add: tally_state_def tally_msg_def hello_msg_def strict_eq_str_def)
  have t: "id_msg tally_msg = ''m1''" "votes tally_msg = 0" "voters tally_msg = [''B'', ''A'']"
    by (simp_all add: tally_msg_def hello_msg_def)
  from second_vote_noop[OF sent_run_exec a e d g] sent_run_exec a e d g
  show ?thesis by (simp add: f t)
qed

subsection \<open>Voting on one's own message\<close>

lemma authored_by_step:
  assumes inv: "authored_by s x name" and h: "handle e s = Inr (s', out)"
    and fresh: "x \<notin> set (uuids [e])"
  shows "authored_by s' x name"
proof (cases e)
  case (Connection a n t)
  with h have "messages s' = messages s" by (auto simp: connection_def Let_def)
  with inv show ?thesis by (simp add: authored_by_def)
next
  case (Disconnect a)
  with h have "messages s' = messages s" by (auto simp: disconnect_def Let_def)
  with inv show ?thesis by (simp add: authored_by_def)
next
  case (Send_message a d u n)
  with h have "send_message a d u n s = Inr (s', out)" by simp
  from send_message_cases[OF this] show ?thesis
  proof
    assume "s' = s"
    with inv show ?thesis by simp
  next
    assume "\<exists>k new. messages s' = drop k (messages s @ [new]) \<and> id_msg new = u \<and>
                  votes new = 0 \<and> voters new = []"
    then obtain k new where ms: "messages s' = drop k (messages s @ [new])"
      and i: "id_msg new = u" by blast
    have "set (messages s') \<subseteq> insert new (set (messages s))"
      unfolding ms using set_drop_subset[of k "messages s @ [new]"] by auto
    moreover from fresh Send_message i have "id_msg new \<noteq> x" by auto
    ultimately show ?thesis using inv unfolding authored_by_def by blast
  qed
next
  case (Vote_message w d)
  with h have vm: "vote_message w d s = Inr (s', out)" by simp
  show ?thesis
  proof (cases "accepted_vote s w d")
    case None
    with vm have "s' = s" by (rule vote_message_unaccepted)
    with inv show ?thesis by simp
  next
    case (Some r)
    then obtain m b where
      f: "find (\<lambda>m'. strict_eq_str (JStr (id_msg m)) (id_msg m')) (messages s) = Some m"
      and res: "vote_message w d s =
        Inr (s\<lparr>messages := assign_first (\<lambda>m'. strict_eq_str (JStr (id_msg m)) (id_msg m'))
                 (m\<lparr>votes := votes m + (if b then 1 else - 1), voters := voters m @ [w]\<rparr>)
                 (messages s)\<rparr>,
           [Io_emit (Message_updated (id_msg m) (votes m + (if b then 1 else - 1))
              (voters m @ [w]))])"
      by (rule vote_message_accepted)
    define m' where "m' = m\<lparr>votes := votes m + (if b then 1 else - 1), voters := voters m @ [w]\<rparr>"
    from vm res have "messages s' =
        assign_first (\<lambda>m'. strict_eq_str (JStr (id_msg m)) (id_msg m')) m' (messages s)"
      by (auto simp: m'_def)
    then have sub: "set (messages s') \<subseteq> insert m' (set (messages s))"
      using set_assign_first_subset by metis
    from f have min: "m \<in> set (messages s)" by (auto simp: find_Some_iff in_set_conv_nth)
    have "username_msg m' = name" if "id_msg m' = x"
    proof -
      from that have "id_msg m = x" by (simp add: m'_def)
      with inv min have "username_msg m = name" unfolding authored_by_def by blast
      then show ?thesis by (simp add: m'_def)
    qed
    with sub inv show ?thesis unfolding authored_by_def by blast
  qed
qed

lemma authored_by_exec:
  assumes "authored_by s x name" and "exec s es = Inr (s', out)" and "x \<notin> set (uuids es)"
  shows "authored_by s' x name"
  using assms
proof (induction es arbitrary: s out)
  case Nil
  then show ?case by simp
next
  case (Cons e es)
  from Cons.prems(2) obtain s1 o1 o2 where h: "handle e s = Inr (s1, o1)"
    and r: "exec s1 es = Inr (s', o2)"
    by (auto split: sum.splits prod.splits)
  from Cons.prems(3) have f1: "x \<notin> set (uuids [e])" and f2: "x \<notin> set (uuids es)"
    unfolding uuids_Cons[of e es] by auto
  from authored_by_step[OF Cons.prems(1) h f1] have "authored_by s1 x name" .
  from Cons.IH[OF this r f2] show ?case .
qed

lemma authored_by_send:
  assumes "map_of (users s) author = Some u" and "get_prop data ''text'' = Inr tx"
    and "uuid \<notin> id_msg ` set (messages s)"
    and "send_message author data uuid now s = Inr (s1, out1)"
  shows "authored_by s1 uuid (username u)"
proof -
  from assms(4) send_message_registered_snoc[OF assms(1,2), of uuid now]
  have "messages s1 = drop (length (messages s) - 99) (messages s) @
      [\<lparr>id_msg = uuid, text_msg = tx, username_msg = username u,
        timestamp = now, votes = 0, voters = []\<rparr>]"
    by auto
  moreover have "set (drop (length (messages s) - 99) (messages s)) \<subseteq> set (messages s)"
    by (rule set_drop_subset)
  ultimately show ?thesis using assms(3) unfolding authored_by_def by auto
qed

lemma own_message_later:
  assumes reg: "map_of (users s1) author = Some u" and tx: "get_prop data ''text'' = Inr tx"
    and fresh: "uuid \<notin> id_msg ` set (messages s1)"
    and run: "exec s1 (Send_message author data uuid now # evs) = Inr (s3, out)"
    and later: "uuid \<notin> set (uuids evs)"
    and f: "find (\<lambda>m. strict_eq_str (JStr uuid) (id_msg m)) (messages s3) = Some m"
  shows "username_msg m = username u"
proof -
  from run obtain s2 o2 o3 where h: "send_message author data uuid now s1 = Inr (s2, o2)"
    and r: "exec s2 evs = Inr (s3, o3)"
    by (auto split: sum.splits prod.splits)
  from authored_by_send[OF reg tx fresh h] have "authored_by s2 uuid (username u)" .
  from authored_by_exec[OF this r later] have a: "authored_by s3 uuid (username u)" .
  from f have "m \<in> set (messages s3)" and "id_msg m = uuid"
    by (auto simp: find_Some_iff in_set_conv_nth strict_eq_str_def)
  with a show ?thesis unfolding authored_by_def by blast
qed

lemma first_vote_counted:
  assumes "get_prop vdata ''messageId'' = Inr mid"
    and "get_prop vdata ''voteType'' = Inr (JStr dir)"
    and "dir = ''up'' \<or> dir = ''down''"
    and "find (\<lambda>m. strict_eq_str mid (id_msg m)) (messages s) = Some m"
    and "voter \<notin> set (voters m)"
  shows "vote_message voter vdata s =
      Inr (s\<lparr>messages := assign_first (\<lambda>m. strict_eq_str mid (id_msg m))
               (m\<lparr>votes := votes m + (if dir = ''up'' then 1 else - 1),
                  voters := voters m @ [voter]\<rparr>) (messages s)\<rparr>,
           [Io_emit (Message_updated (id_msg m)
               (votes m + (if dir = ''up'' then 1 else - 1)) (voters m @ [voter]))])"
  using assms(3,5) unfolding vote_message_found[OF assms(1,2,4)] by auto

text \<open>
  Claim C10. A message does not record the socket id of its author, and the vote
  handler compares the voter with the voters of the message only. In any state, for any
  stored message that a vote names and any voter that is not among its voters, an up or
  down vote is counted: the score moves by one and the voter is added; the username on
  the message and the entries of \<^verbatim>\<open>users\<close> play no part. In particular, when a registered
  session \<open>author\<close> has sent a message under a fresh uuid and any events have followed
  that do not draw that uuid again, the stored message with that id still carries the
  author's username, and a vote on it by \<open>author\<close>, who is not yet among its voters, is
  counted like that of anyone else. Right after the send, the author's vote makes the
  score 1 or -1 and the voters the author alone.
\<close>

theorem self_vote_counts:
  "(get_prop vdata ''messageId'' = Inr mid \<and> get_prop vdata ''voteType'' = Inr (JStr dir) \<and>
    (dir = ''up'' \<or> dir = ''down'') \<and>
    find (\<lambda>m. strict_eq_str mid (id_msg m)) (messages s) = Some m \<and>
    voter \<notin> set (voters m) \<longrightarrow>
      vote_message voter vdata s =
        Inr (s\<lparr>messages := assign_first (\<lambda>m. strict_eq_str mid (id_msg m))
                 (m\<lparr>votes := votes m + (if dir = ''up'' then 1 else - 1),
                    voters := voters m @ [voter]\<rparr>) (messages s)\<rparr>,
             [Io_emit (Message_updated (id_msg m)
                 (votes m + (if dir = ''up'' then 1 else - 1)) (voters m @ [voter]))])) \<and>
   (map_of (users s1) author = Some u \<and> get_prop data ''text'' = Inr tx \<and>
    uuid \<notin> id_msg ` set (messages s1) \<and>
    exec s1 (Send_message author data uuid now # evs) = Inr (s3, out) \<and>
    uuid \<notin> set (uuids evs) \<and>
    find (\<lambda>m. strict_eq_str (JStr uuid) (id_msg m)) (messages s3) = Some m' \<and>
    author \<notin> set (voters m') \<and>
    get_prop vdata' ''messageId'' = Inr (JStr uuid) \<and>
    get_prop vdata' ''voteType'' = Inr (JStr dir') \<and> (dir' = ''up'' \<or> dir' = ''down'') \<longrightarrow>
      username_msg m' = username u \<and>
      vote_message author vdata' s3 =
        Inr (s3\<lparr>messages := assign_first (\<lambda>m. strict_eq_str (JStr uuid) (id_msg m))
                 (m'\<lparr>votes := votes m' + (if dir' = ''up'' then 1 else - 1),
                     voters := voters m' @ [author]\<rparr>) (messages s3)\<rparr>,
             [Io_emit (Message_updated uuid
                 (votes m' + (if dir' = ''up'' then 1 else - 1)) (voters m' @ [author]))])) \<and>
   (map_of (users t) author = Some u \<and> get_prop data ''text'' = Inr tx \<and>
    uuid \<notin> id_msg ` set (messages t) \<and>
    send_message author data uuid now t = Inr (t1, out1) \<and>
    get_prop vdata' ''messageId'' = Inr (JStr uuid) \<and>
    get_prop vdata' ''voteType'' = Inr (JStr dir') \<and> (dir' = ''up'' \<or> dir' = ''down'') \<longrightarrow>
      vote_message author vdata' t1 =
        Inr (t1\<lparr>messages := butlast (messages t1) @
                 [\<lparr>id_msg = uuid, text_msg = tx, username_msg = username u,
                   timestamp = now, votes = (if dir' = ''up'' then 1 else - 1),
                   voters = [author]\<rparr>]\<rparr>,
             [Io_emit (Message_updated uuid (if dir' = ''up'' then 1 else - 1) [author])]))"
proof (intro conjI impI)
  assume "get_prop vdata ''messageId'' = Inr mid \<and> get_prop vdata ''voteType'' = Inr (JStr dir) \<and>
    (dir = ''up'' \<or> dir = ''down'') \<and>
    find (\<lambda>m. strict_eq_str mid (id_msg m)) (messages s) = Some m \<and>
    voter \<notin> set (voters m)"
  then show "vote_message voter vdata s =
        Inr (s\<lparr>messages := assign_first (\<lambda>m. strict_eq_str mid (id_msg m))
                 (m\<lparr>votes := votes m + (if dir = ''up'' then 1 else - 1),
                    voters := voters m @ [voter]\<rparr>) (messages s)\<rparr>,
             [Io_emit (Message_updated (id_msg m)
                 (votes m + (if dir = ''up'' then 1 else - 1)) (voters m @ [voter]))])"
    by (intro first_vote_counted) simp_all
next
  assume a: "map_of (users s1) author = Some u \<and> get_prop data ''text'' = Inr tx \<and>
    uuid \<notin> id_msg ` set (messages s1) \<and>
    exec s1 (Send_message author data uuid now # evs) = Inr (s3, out) \<and>
    uuid \<notin> set (uuids evs) \<and>
    find (\<lambda>m. strict_eq_str (JStr uuid) (id_msg m)) (messages s3) = Some m' \<and>
    author \<notin> set (voters m') \<and>
    get_prop vdata' ''messageId'' = Inr (JStr uuid) \<and>
    get_prop vdata' ''voteType'' = Inr (JStr dir') \<and> (dir' = ''up'' \<or> dir' = ''down'')"
  then show "username_msg m' = username u"
    by (intro own_message_later[of s1 author u data tx uuid now evs s3 out m']) simp_all
  from a have "find (\<lambda>m. strict_eq_str (JStr uuid) (id_msg m)) (messages s3) = Some m'"
    by simp
  then have i: "id_msg m' = uuid"
    by (auto simp: find_Some_iff strict_eq_str_def)
  from a have "vote_message author vdata' s3 =
      Inr (s3\<lparr>messages := assign_first (\<lambda>m. strict_eq_str (JStr uuid) (id_msg m))
               (m'\<lparr>votes := votes m' + (if dir' = ''up'' then 1 else - 1),
                  voters := voters m' @ [author]\<rparr>) (messages s3)\<rparr>,
           [Io_emit (Message_updated (id_msg m')
               (votes m' + (if dir' = ''up'' then 1 else - 1)) (voters m' @ [author]))])"
    by (intro first_vote_counted) simp_all
  then show "vote_message author vdata' s3 =
        Inr (s3\<lparr>messages := assign_first (\<lambda>m. strict_eq_str (JStr uuid) (id_msg m))
                 (m'\<lparr>votes := votes m' + (if dir' = ''up'' then 1 else - 1),
                     voters := voters m' @ [author]\<rparr>) (messages s3)\<rparr>,
             [Io_emit (Message_updated uuid
                 (votes m' + (if dir' = ''up'' then 1 else - 1)) (voters m' @ [author]))])"
    unfolding i .
next
  assume "map_of (users t) author = Some u \<and> get_prop data ''text'' = Inr tx \<and>
    uuid \<notin> id_msg ` set (messages t) \<and>
    send_message author data uuid now t = Inr (t1, out1) \<and>
    get_prop vdata' ''messageId'' = Inr (JStr uuid) \<and>
    get_prop vdata' ''voteType'' = Inr (JStr dir') \<and> (dir' = ''up'' \<or> dir' = ''down'')"
  then show "vote_message author vdata' t1 =
        Inr (t1\<lparr>messages := butlast (messages t1) @
                 [\<lparr>id_msg = uuid, text_msg = tx, username_msg = username u,
                   timestamp = now, votes = (if dir' = ''up'' then 1 else - 1),
                   voters = [author]\<rparr>]\<rparr>,
             [Io_emit (Message_updated uuid (if dir' = ''up'' then 1 else - 1) [author])])"
    by (intro self_vote_immediate[of t author u data tx uuid now t1 out1 vdata' dir']) simp_all
qed

text \<open>
  \<open>A\<close> votes on its own message \<^verbatim>\<open>m1\<close>, which carries the username of \<open>A\<close>: after
  \<open>reply_run\<close>, when it is the older of two messages and \<open>B\<close> has voted on it, and right
  after having sent it.
\<close>

lemma reply_run_exec:
  "exec joined_state (Send_message ''A'' (JObj [(''text'', JStr ''hello'')]) ''m1'' 2 # reply_run) =
     Inr (replied_state, replied_out)"
  by (simp add: joined_state_def reply_run_def replied_state_def replied_out_def reply_msg_def
      voted_state_def hello_msg_def vote_data_def handler_defs)

theorem self_vote_counts_witness:
  "map_of (users joined_state) ''A'' = Some \<lparr>username = ''SilentUser1'', joinedAt = 0\<rparr> \<and>
   get_prop (JObj [(''text'', JStr ''hello'')]) ''text'' = Inr (JStr ''hello'') \<and>
   ''m1'' \<notin> id_msg ` set (messages joined_state) \<and>
   exec joined_state (Send_message ''A'' (JObj [(''text'', JStr ''hello'')]) ''m1'' 2 # reply_run) =
     Inr (replied_state, replied_out) \<and>
   ''m1'' \<notin> set (uuids reply_run) \<and>
   find (\<lambda>m. strict_eq_str (JStr ''m1'') (id_msg m)) (messages replied_state) = Some hello_msg \<and>
   ''A'' \<notin> set (voters hello_msg) \<and>
   get_prop (vote_data ''m1'' ''down'') ''messageId'' = Inr (JStr ''m1'') \<and>
   get_prop (vote_data ''m1'' ''down'') ''voteType'' = Inr (JStr ''down'') \<and>
   username_msg hello_msg = ''SilentUser1'' \<and>
   vote_message ''A'' (vote_data ''m1'' ''down'') replied_state =
     Inr (replied_state\<lparr>messages := [tally_msg, reply_msg]\<rparr>,
          [Io_emit (Message_updated ''m1'' 0 [''B'', ''A''])]) \<and>
   send_message ''A'' (JObj [(''text'', JStr ''hello'')]) ''m1'' 2 joined_state =
     Inr (sent_state, [Io_emit (New_message (hello_msg\<lparr>votes := 0, voters := []\<rparr>))]) \<and>
   vote_message ''A'' (vote_data ''m1'' ''down'') sent_state =
     Inr (sent_state\<lparr>messages := [hello_msg\<lparr>votes := - 1, voters := [''A'']\<rparr>]\<rparr>,
          [Io_emit (Message_updated ''m1'' (- 1) [''A''])])"
proof -
  let ?hello = "JObj [(''text'', JStr ''hello'')]"
  let ?down = "vote_data ''m1'' ''down''"
  let ?uA = "\<lparr>username = ''SilentUser1'', joinedAt = 0\<rparr>"
  note inst = self_vote_counts[of ?down "JStr ''m1''" "''down''" replied_state hello_msg "''A''"
      joined_state "''A''" ?uA ?hello "JStr ''hello''" "''m1''" 2 reply_run replied_state
      replied_out hello_msg ?down "''down''" joined_state sent_state
      "[Io_emit (New_message (hello_msg\<lparr>votes := 0, voters := []\<rparr>))]"]
  have u: "map_of (users joined_state) ''A'' = Some ?uA"
    by (simp add: joined_state_def voted_state_def)
  have t: "get_prop ?hello ''text'' = Inr (JStr ''hello'')" by simp
  have i: "''m1'' \<notin> id_msg ` set (messages joined_state)"
    by (simp add: joined_state_def)
  have l: "''m1'' \<notin> set (uuids reply_run)" by (simp add: reply_run_def)
  have f: "find (\<lambda>m. strict_eq_str (JStr ''m1'') (id_msg m)) (messages replied_state) =
             Some hello_msg"
    by (simp add: replied_state_def hello_msg_def strict_eq_str_def)
  have v: "''A'' \<notin> set (voters hello_msg)" by (simp add: hello_msg_def)
  have g: "get_prop ?down ''messageId'' = Inr (JStr ''m1'')"
    "get_prop ?down ''voteType'' = Inr (JStr ''down'')"
    by (simp_all add: vote_data_def)
  have d: "''down'' = ''up'' \<or> ''down'' = ''down''" by simp
  have s: "send_message ''A'' ?hello ''m1'' 2 joined_state =
     Inr (sent_state, [Io_emit (New_message (hello_msg\<lparr>votes := 0, voters := []\<rparr>))])"
    by (simp add: joined_state_def sent_state_def voted_state_def hello_msg_def handler_defs)
  have a: "assign_first (\<lambda>m. strict_eq_str (JStr ''m1'') (id_msg m))
             (hello_msg\<lparr>votes := votes hello_msg + (if ''down'' = ''up'' then 1 else - 1),
                         voters := voters hello_msg @ [''A'']\<rparr>) (messages replied_state) =
           [tally_msg, reply_msg]"
    by (simp add: replied_state_def hello_msg_def tally_msg_def strict_eq_str_def)
  have h: "id_msg hello_msg = ''m1''" "votes hello_msg = 1" "voters hello_msg = [''B'']"
    "username_msg hello_msg = ''SilentUser1''"
    by (simp_all add: hello_msg_def)
  from inst[THEN conjunct1] g d f v
  have r1: "vote_message ''A'' ?down replied_state =
     Inr (replied_state\<lparr>messages := [tally_msg, reply_msg]\<rparr>,
          [Io_emit (Message_updated ''m1'' 0 [''B'', ''A''])])"
    unfolding a by (simp add: h)
  from inst[THEN conjunct2, THEN conjunct1] u t i reply_run_exec l f v g d
  have r2: "username_msg hello_msg = username ?uA" by simp
  from inst[THEN conjunct2, THEN conjunct2] u t i s g d
  have r3: "vote_message ''A'' ?down sent_state =
     Inr (sent_state\<lparr>messages := [hello_msg\<lparr>votes := - 1, voters := [''A'']\<rparr>]\<rparr>,
          [Io_emit (Message_updated ''m1'' (- 1) [''A''])])"
    by (simp add: sent_state_def hello_msg_def)
  from r2 have r2': "username_msg hello_msg = ''SilentUser1''" by simp
  from u t i reply_run_exec l f v g r2' r1 s r3 show ?thesis by (intro conjI)
qed

end
